theory Spec2Isabelle
  imports Main "HOL-Library.Sublist"
begin

section \<open>JavaScript strings and regular expressions\<close>

text \<open>
  A JavaScript string is modelled as the list of its UTF-16 code units, restricted to code
  units below 256 (the type \<^typ>\<open>char\<close>). On this range the class \<open>\s\<close> (and the set
  stripped by \<open>trim\<close>) is TAB, LF, VT, FF, CR, SPACE and NBSP, and the line terminators
  (excluded by \<open>.\<close>, recognised by \<open>^\<close> and \<open>$\<close> under the \<open>m\<close> flag) are LF and CR.
\<close>

definition is_space :: "char \<Rightarrow> bool" where
  "is_space c = (c \<in> set [CHR 0x09, CHR 0x0A, CHR 0x0B, CHR 0x0C, CHR 0x0D, CHR 0x20, CHR 0xA0])"

definition is_line_term :: "char \<Rightarrow> bool" where
  "is_line_term c = (c \<in> set [CHR 0x0A, CHR 0x0D])"

definition is_digit :: "char \<Rightarrow> bool" where
  "is_digit c = (c \<in> set ''0123456789'')"

definition dot :: "char \<Rightarrow> bool" where
  "dot c = (\<not> is_line_term c)"

definition any_char :: "char \<Rightarrow> bool" where
  "any_char c = True"

definition not_in :: "string \<Rightarrow> char \<Rightarrow> bool" where
  "not_in cs c = (c \<notin> set cs)"

definition one_of :: "string \<Rightarrow> char \<Rightarrow> bool" where
  "one_of cs c = (c \<in> set cs)"

text \<open>
  The fragment of the regular-expression syntax that the renderer uses. \<open>Star True r\<close> is
  the greedy \<open>r*\<close>, \<open>Star False r\<close> the lazy \<open>r*?\<close>; \<open>Bol\<close> and \<open>Eol\<close> are \<open>^\<close> and \<open>$\<close>
  under the \<open>m\<close> flag, \<open>Bos\<close> and \<open>Eos\<close> without it; \<open>NotAfter p\<close> is a negative
  lookbehind \<open>(?<!c)\<close> for a one-character class, \<open>NotBefore r\<close> the negative lookahead
  \<open>(?!r)\<close>.
\<close>

datatype regex =
    Lit string
  | Cls "char \<Rightarrow> bool"
  | Seq regex regex
  | Alt regex regex
  | Star bool regex
  | Opt regex
  | Grp nat regex
  | Backref nat
  | Bol
  | Eol
  | Bos
  | Eos
  | NotAfter "char \<Rightarrow> bool"
  | NotBefore regex

fun seqs :: "regex list \<Rightarrow> regex" where
  "seqs [] = Lit []"
| "seqs [r] = r"
| "seqs (r # rs) = Seq r (seqs rs)"

definition Plus :: "regex \<Rightarrow> regex" where
  "Plus r = Seq r (Star True r)"

definition PlusLazy :: "regex \<Rightarrow> regex" where
  "PlusLazy r = Seq r (Star False r)"

text \<open>
  A matcher state: the code unit before the current position (if any), the input that is
  left, and the captures made so far (latest first).
\<close>

type_synonym mstate = "char option \<times> string \<times> (nat \<times> string) list"

fun prev_after :: "char option \<Rightarrow> string \<Rightarrow> char option" where
  "prev_after p [] = p"
| "prev_after p (c # cs) = prev_after (Some c) cs"

fun strip_prefix :: "string \<Rightarrow> string \<Rightarrow> string option" where
  "strip_prefix [] s = Some s"
| "strip_prefix (c # cs) [] = None"
| "strip_prefix (c # cs) (x # xs) = (if c = x then strip_prefix cs xs else None)"

definition capture :: "(nat \<times> string) list \<Rightarrow> nat \<Rightarrow> string" where
  "capture caps n = (case map_of caps n of None \<Rightarrow> [] | Some w \<Rightarrow> w)"

text \<open>
  The backtracking matcher, as the list of all ways to match from a state, in the order in
  which a backtracking engine tries them: the match the engine reports is the first one.
  An iteration of a star that consumes nothing is rejected, as the language requires.
\<close>

function rmatch :: "regex \<Rightarrow> mstate \<Rightarrow> mstate list" where
  "rmatch (Lit w) (p, s, c) =
     (case strip_prefix w s of None \<Rightarrow> [] | Some s' \<Rightarrow> [(prev_after p w, s', c)])"
| "rmatch (Cls f) (p, s, c) =
     (case s of [] \<Rightarrow> [] | x # xs \<Rightarrow> if f x then [(Some x, xs, c)] else [])"
| "rmatch (Seq a b) st = concat (map (rmatch b) (rmatch a st))"
| "rmatch (Alt a b) st = rmatch a st @ rmatch b st"
| "rmatch (Star greedy a) (p, s, c) =
     (let more = concat (map (\<lambda>(p', s', c').
                     if length s' < length s then rmatch (Star greedy a) (p', s', c') else [])
                   (rmatch a (p, s, c)))
      in if greedy then more @ [(p, s, c)] else (p, s, c) # more)"
| "rmatch (Opt a) st = rmatch a st @ [st]"
| "rmatch (Grp n a) (p, s, c) =
     map (\<lambda>(p', s', c'). (p', s', (n, take (length s - length s') s) # c')) (rmatch a (p, s, c))"
| "rmatch (Backref n) (p, s, c) =
     (case strip_prefix (capture c n) s of None \<Rightarrow> []
      | Some s' \<Rightarrow> [(prev_after p (capture c n), s', c)])"
| "rmatch Bol (p, s, c) =
     (case p of None \<Rightarrow> [(p, s, c)] | Some x \<Rightarrow> if is_line_term x then [(p, s, c)] else [])"
| "rmatch Eol (p, s, c) =
     (case s of [] \<Rightarrow> [(p, s, c)] | x # xs \<Rightarrow> if is_line_term x then [(p, s, c)] else [])"
| "rmatch Bos (p, s, c) = (case p of None \<Rightarrow> [(p, s, c)] | Some x \<Rightarrow> [])"
| "rmatch Eos (p, s, c) = (case s of [] \<Rightarrow> [(p, s, c)] | x # xs \<Rightarrow> [])"
| "rmatch (NotAfter f) (p, s, c) =
     (case p of None \<Rightarrow> [(p, s, c)] | Some x \<Rightarrow> if f x then [] else [(p, s, c)])"
| "rmatch (NotBefore a) st = (if rmatch a st = [] then [st] else [])"
  by pat_completeness auto
termination
  by (relation "measures [\<lambda>(r, st). size r, \<lambda>(r, p, s, c). length s]") auto


text \<open>
  One attempt of the engine at a position: \<open>rpre\<close> is the input before the position,
  reversed, \<open>s\<close> the input from the position on. The result is the matched text, the
  captures and the input after the match.
\<close>

definition exec_at :: "regex \<Rightarrow> string \<Rightarrow> string \<Rightarrow> (string \<times> (nat \<times> string) list \<times> string) option" where
  "exec_at re rpre s =
     (case rmatch re (case rpre of [] \<Rightarrow> None | c # _ \<Rightarrow> Some c, s, []) of
        [] \<Rightarrow> None
      | (p', s', caps) # _ \<Rightarrow> Some (take (length s - length s') s, caps, s'))"

text \<open>
  \<open>String.prototype.replace\<close> with a global regular expression first collects the
  matches from left to right: after a match the search resumes at its end, after an empty
  match one code unit further. \<open>scan\<close> returns the input cut into the code units that are
  kept and the matches (\<open>Hit matched captures before after\<close>).
\<close>

datatype piece = Keep char | Hit string "(nat \<times> string) list" string string

function scan :: "regex \<Rightarrow> string \<Rightarrow> string \<Rightarrow> piece list" where
  "scan re rpre s =
     (case exec_at re rpre s of
        None \<Rightarrow> (case s of [] \<Rightarrow> [] | c # cs \<Rightarrow> Keep c # scan re (c # rpre) cs)
      | Some (m, caps, s') \<Rightarrow>
          Hit m caps (rev rpre) s' #
            (if m = [] then (case s of [] \<Rightarrow> [] | c # cs \<Rightarrow> Keep c # scan re (c # rpre) cs)
             else scan re (rev m @ rpre) s'))"
  by pat_completeness auto
termination
  by (relation "measure (\<lambda>(re, rpre, s). length s)")
     (auto simp: exec_at_def split: list.splits)

text \<open>\<open>RegExp.prototype.test\<close> of a regular expression without the \<open>g\<close> flag.\<close>

fun test_from :: "regex \<Rightarrow> string \<Rightarrow> string \<Rightarrow> bool" where
  "test_from re rpre [] = (exec_at re rpre [] \<noteq> None)"
| "test_from re rpre (c # cs) = (exec_at re rpre (c # cs) \<noteq> None \<or> test_from re (c # rpre) cs)"

definition js_test :: "regex \<Rightarrow> string \<Rightarrow> bool" where
  "js_test re s = test_from re [] s"

subsection \<open>Replacement\<close>

fun ngroups :: "regex \<Rightarrow> nat" where
  "ngroups (Seq a b) = max (ngroups a) (ngroups b)"
| "ngroups (Alt a b) = max (ngroups a) (ngroups b)"
| "ngroups (Star g a) = ngroups a"
| "ngroups (Opt a) = ngroups a"
| "ngroups (Grp n a) = max n (ngroups a)"
| "ngroups (NotBefore a) = ngroups a"
| "ngroups r = 0"

text \<open>The groups that every match of a pattern sets.\<close>

fun always_set :: "regex \<Rightarrow> nat set" where
  "always_set (Seq a b) = always_set a \<union> always_set b"
| "always_set (Alt a b) = always_set a \<inter> always_set b"
| "always_set (Grp n a) = insert n (always_set a)"
| "always_set r = {}"

definition digit_val :: "char \<Rightarrow> nat" where
  "digit_val c = length (takeWhile (\<lambda>d. d \<noteq> c) ''0123456789'')"

text \<open>
  The replacement patterns of a replacement string (\<open>GetSubstitution\<close>): \<open>$$\<close>, \<open>$&\<close>,
  \<open>$`\<close>, \<open>$'\<close>, and \<open>$n\<close>, \<open>$nn\<close> for a group that the regular expression has;
  every other \<open>$\<close> stands for itself. \<open>k\<close> is the number of groups.
\<close>

fun expand :: "nat \<Rightarrow> string \<Rightarrow> string \<Rightarrow> (nat \<times> string) list \<Rightarrow> string \<Rightarrow> string \<Rightarrow> string" where
  "expand k [] m caps pre post = []"
| "expand k [x] m caps pre post = [x]"
| "expand k (x # y # t) m caps pre post =
     (if x \<noteq> CHR ''$'' then x # expand k (y # t) m caps pre post
      else if y = CHR ''$'' then CHR ''$'' # expand k t m caps pre post
      else if y = CHR ''&'' then m @ expand k t m caps pre post
      else if y = CHR ''`'' then pre @ expand k t m caps pre post
      else if y = CHR 0x27 then post @ expand k t m caps pre post
      else if is_digit y then
        (case t of
           z # t' \<Rightarrow>
             if is_digit z \<and> 1 \<le> 10 * digit_val y + digit_val z \<and> 10 * digit_val y + digit_val z \<le> k
             then capture caps (10 * digit_val y + digit_val z) @ expand k t' m caps pre post
             else if is_digit z \<and> 10 * digit_val y + digit_val z \<le> k
             then x # y # z # expand k t' m caps pre post
             else if 1 \<le> digit_val y \<and> digit_val y \<le> k
             then capture caps (digit_val y) @ expand k t m caps pre post
             else x # y # expand k t m caps pre post
         | [] \<Rightarrow>
             if 1 \<le> digit_val y \<and> digit_val y \<le> k then capture caps (digit_val y)
             else [x, y])
      else x # expand k (y # t) m caps pre post)"

definition js_replace :: "regex \<Rightarrow> string \<Rightarrow> string \<Rightarrow> string" where
  "js_replace re tmpl s =
     concat (map (\<lambda>p. case p of Keep c \<Rightarrow> [c]
                         | Hit m caps pre post \<Rightarrow> expand (ngroups re) tmpl m caps pre post)
                 (scan re [] s))"

text \<open>
  Replacement by a callback. The callbacks of the renderer read the matched text and the
  groups and push onto one of the side tables, which is threaded through as \<open>tbl\<close>.
\<close>

fun run_pieces :: "(string \<Rightarrow> (nat \<times> string) list \<Rightarrow> 'a \<Rightarrow> string \<times> 'a) \<Rightarrow> piece list \<Rightarrow> 'a \<Rightarrow> string \<times> 'a" where
  "run_pieces f [] tbl = ([], tbl)"
| "run_pieces f (Keep c # ps) tbl = (case run_pieces f ps tbl of (out, tbl') \<Rightarrow> (c # out, tbl'))"
| "run_pieces f (Hit m caps pre post # ps) tbl =
     (case f m caps tbl of (r, tbl1) \<Rightarrow>
        case run_pieces f ps tbl1 of (out, tbl2) \<Rightarrow> (r @ out, tbl2))"

definition js_replace_fn :: "regex \<Rightarrow> (string \<Rightarrow> (nat \<times> string) list \<Rightarrow> 'a \<Rightarrow> string \<times> 'a) \<Rightarrow> string \<Rightarrow> 'a \<Rightarrow> string \<times> 'a" where
  "js_replace_fn re f s tbl = run_pieces f (scan re [] s) tbl"

subsection \<open>String methods\<close>

definition trim :: "string \<Rightarrow> string" where
  "trim s = rev (dropWhile is_space (rev (dropWhile is_space s)))"

fun split_on :: "char \<Rightarrow> string \<Rightarrow> string list" where
  "split_on c [] = [[]]"
| "split_on c (x # xs) =
     (if x = c then [] # split_on c xs
      else (case split_on c xs of [] \<Rightarrow> [[x]] | y # ys \<Rightarrow> (x # y) # ys))"

fun join :: "string \<Rightarrow> string list \<Rightarrow> string" where
  "join sep [] = []"
| "join sep [x] = x"
| "join sep (x # xs) = x @ sep @ join sep xs"

definition to_lower_char :: "char \<Rightarrow> char" where
  "to_lower_char c =
     (case map_of (zip ''ABCDEFGHIJKLMNOPQRSTUVWXYZ'' ''abcdefghijklmnopqrstuvwxyz'') c of
        None \<Rightarrow> c | Some l \<Rightarrow> l)"

definition toLowerCase :: "string \<Rightarrow> string" where
  "toLowerCase s = map to_lower_char s"

definition digit_char :: "nat \<Rightarrow> char" where
  "digit_char d = ''0123456789'' ! d"

function show_nat :: "nat \<Rightarrow> string" where
  "show_nat n = (if n < 10 then [digit_char n] else show_nat (n div 10) @ [digit_char (n mod 10)])"
  by pat_completeness auto
termination
  by (relation "measure id") auto

definition parseInt :: "string \<Rightarrow> nat" where
  "parseInt ds = foldl (\<lambda>a d. 10 * a + digit_val d) 0 ds"


section \<open>The renderer\<close>

subsection \<open>HTML escape helper\<close>

definition escapeHtml :: "string \<Rightarrow> string" where
  \<open>escapeHtml text =
     (if text = [] then []
      else js_replace (Lit [CHR 0x27]) ''&#039;''
            (js_replace (Lit ''"'') ''&quot;''
              (js_replace (Lit ''>'') ''&gt;''
                (js_replace (Lit ''<'') ''&lt;''
                  (js_replace (Lit ''&'') ''&amp;'' text)))))\<close>

subsection \<open>The side tables and their placeholders\<close>

record code_block =
  language :: string
  code :: string

definition codeblock_placeholder :: "nat \<Rightarrow> string" where
  "codeblock_placeholder i = ''__CODEBLOCK_'' @ show_nat i @ ''__''"

definition inlinecode_placeholder :: "nat \<Rightarrow> string" where
  "inlinecode_placeholder i = ''__INLINECODE_'' @ show_nat i @ ''__''"

definition table_placeholder :: "nat \<Rightarrow> string" where
  "table_placeholder i = ''__TABLE_'' @ show_nat i @ ''__''"

subsection \<open>Step 1a: fenced code blocks with a language\<close>

definition lang_char :: "char \<Rightarrow> bool" where
  "lang_char c =
     (c \<in> set ''abcdefghijklmnopqrstuvwxyzABCDEFGHIJKLMNOPQRSTUVWXYZ0123456789_+-.#'')"

definition re_fence_lang :: regex where
  "re_fence_lang =
     seqs [Grp 1 (Lit ''```''), Grp 2 (Plus (Cls lang_char)), Star True (Cls is_space),
           Lit ''\<newline>'', Grp 3 (Star False (Cls any_char)), Opt (Lit ''\<newline>''),
           Grp 4 (Lit ''```'')]"

definition re_blank_edges :: regex where
  "re_blank_edges = Alt (Seq Bos (Plus (Lit ''\<newline>''))) (Seq (Plus (Lit ''\<newline>'')) Eos)"

definition knownLanguages :: "string list" where
  "knownLanguages =
     [''javascript'', ''js'', ''typescript'', ''ts'', ''python'', ''py'', ''java'', ''c'',
      ''cpp'', ''csharp'', ''cs'', ''php'', ''html'', ''css'', ''json'', ''xml'',
      ''sql'', ''bash'', ''sh'', ''yaml'', ''yml'', ''markdown'', ''md'', ''ruby'',
      ''rb'', ''go'', ''rust'', ''rs'', ''swift'', ''kotlin'', ''kt'', ''scala'',
      ''perl'', ''pl'', ''lua'', ''r'', ''matlab'', ''jsx'', ''tsx'', ''dart'',
      ''erlang'', ''elixir'', ''haskell'', ''clojure'', ''fsharp'', ''powershell'', ''shell'', ''dockerfile'',
      ''makefile'', ''cmake'', ''nginx'', ''apache'', ''diff'', ''ini'', ''toml'', ''graphql'',
      ''docker'', ''sql'', ''vim'', ''regex'', ''apache'', ''nginx'', ''armasm'', ''avrasm'',
      ''actionscript'', ''ada'', ''apache'', ''applescript'', ''arduino'', ''coffeescript'', ''d'', ''delphi'',
      ''oxygene'', ''elixir'', ''elm'', ''erlang'', ''fsharp'', ''gcode'', ''golang'', ''groovy'',
      ''haml'', ''handlebars'', ''haskell'', ''haxe'', ''java'', ''javascript'', ''json'', ''julia'',
      ''kotlin'', ''latex'', ''less'', ''lisp'', ''livescript'', ''lua'', ''makefile'', ''markdown'',
      ''matlab'', ''mathematica'', ''nginx'', ''objectivec'', ''ocaml'', ''perl'', ''php'', ''powershell'',
      ''python'', ''r'', ''ruby'', ''rust'', ''scala'', ''scheme'', ''scss'', ''shell'',
      ''sql'', ''swift'', ''tcl'', ''typescript'', ''verilog'', ''vhdl'', ''xml'', ''yaml'',
      ''text'', ''txt'', ''plain'']"

definition fence_lang_cb :: "string \<Rightarrow> (nat \<times> string) list \<Rightarrow> code_block list \<Rightarrow> string \<times> code_block list" where
  "fence_lang_cb m caps codeBlocks =
     (if capture caps 4 = ''```'' then
        (let cleanCode = js_replace re_blank_edges [] (capture caps 3);
             lang = trim (capture caps 2)
         in if lang \<noteq> [] \<and> toLowerCase lang \<in> set knownLanguages
            then (codeblock_placeholder (length codeBlocks),
                  codeBlocks @ [\<lparr>language = toLowerCase lang, code = cleanCode\<rparr>])
            else (m, codeBlocks))
      else (m, codeBlocks))"

subsection \<open>Step 1b: fenced code blocks without a language\<close>

definition re_fence_plain :: regex where
  "re_fence_plain =
     seqs [Grp 1 (Lit ''```''), Star True (Cls is_space), Opt (Lit ''\<newline>''),
           Grp 2 (Star False (Cls any_char)), Opt (Lit ''\<newline>''), Grp 3 (Lit ''```'')]"

definition fence_plain_cb :: "string \<Rightarrow> (nat \<times> string) list \<Rightarrow> code_block list \<Rightarrow> string \<times> code_block list" where
  "fence_plain_cb m caps codeBlocks =
     (if capture caps 3 = ''```'' then
        (let cleanCode = js_replace re_blank_edges [] (capture caps 2)
         in (codeblock_placeholder (length codeBlocks),
             codeBlocks @ [\<lparr>language = ''plaintext'', code = cleanCode\<rparr>]))
      else (m, codeBlocks))"

subsection \<open>Step 1c: inline code, first pass\<close>

definition re_inline1 :: regex where
  "re_inline1 =
     seqs [NotAfter (one_of ''`''), Lit ''`'', Grp 1 (PlusLazy (Cls (not_in ''`\<newline>''))),
           Lit ''`'', NotBefore (Lit ''`'')]"

definition inline1_cb :: "string \<Rightarrow> (nat \<times> string) list \<Rightarrow> string list \<Rightarrow> string \<times> string list" where
  "inline1_cb m caps inlineCodes =
     (inlinecode_placeholder (length inlineCodes), inlineCodes @ [capture caps 1])"

subsection \<open>Step 2: tables\<close>

definition re_table :: regex where
  "re_table =
     Grp 1 (Plus (seqs [Bol, Star True (Cls is_space), Lit ''|'', Star True (Cls dot), Lit ''|'',
                        Star True (Cls is_space), Eol, Opt (Lit ''\<newline>'')]))"

definition re_separator_loose :: regex where
  "re_separator_loose =
     seqs [Bos, Star True (Cls is_space), Lit ''|'', Plus (Cls (\<lambda>c. is_space c \<or> c \<in> set ''-:|'')),
           Lit ''|'', Star True (Cls is_space), Eos]"

definition table_cb :: "string \<Rightarrow> (nat \<times> string) list \<Rightarrow> string list list \<Rightarrow> string \<times> string list list" where
  "table_cb m caps tables =
     (let lines = filter (\<lambda>line. trim line \<noteq> []) (split_on CHR ''\<newline>'' (trim m))
      in if length lines < 2 then (m, tables)
         else if \<not> list_ex (\<lambda>line. js_test re_separator_loose (trim line)) lines then (m, tables)
         else (table_placeholder (length tables), tables @ [lines]))"

subsection \<open>Step 3: inline code, second pass\<close>

definition re_inline2 :: regex where
  "re_inline2 =
     seqs [Grp 1 (Plus (Lit ''`'')), Grp 2 (PlusLazy (Cls (not_in ''`''))), Backref 1,
           NotBefore (Lit ''`'')]"

definition inline2_cb :: "string \<Rightarrow> (nat \<times> string) list \<Rightarrow> string list \<Rightarrow> string \<times> string list" where
  "inline2_cb m caps inlineCodes =
     (if length (capture caps 1) mod 2 = 1
      then (inlinecode_placeholder (length inlineCodes), inlineCodes @ [capture caps 2])
      else (m, inlineCodes))"

text \<open>Steps 1a to 3 in the order of the source: the text left over and the three side tables.\<close>

definition extract_regions :: "string \<Rightarrow> string \<times> code_block list \<times> string list \<times> string list list" where
  "extract_regions text =
     (case js_replace_fn re_fence_lang fence_lang_cb text [] of (t1, cb1) \<Rightarrow>
      case js_replace_fn re_fence_plain fence_plain_cb t1 cb1 of (t2, codeBlocks) \<Rightarrow>
      case js_replace_fn re_inline1 inline1_cb t2 [] of (t3, ic1) \<Rightarrow>
      case js_replace_fn re_table table_cb t3 [] of (t4, tables) \<Rightarrow>
      case js_replace_fn re_inline2 inline2_cb t4 ic1 of (t5, inlineCodes) \<Rightarrow>
        (t5, codeBlocks, inlineCodes, tables))"


subsection \<open>Step 5: block and inline formatting\<close>

definition re_header :: "nat \<Rightarrow> regex" where
  "re_header n =
     seqs [Bol, Lit (replicate n CHR ''#''), Plus (Cls is_space), Grp 1 (Plus (Cls dot)), Eol]"

definition header_tmpl :: "nat \<Rightarrow> string" where
  "header_tmpl n = ''<h'' @ show_nat n @ ''>$1</h'' @ show_nat n @ ''>''"

definition three_or_more :: "char \<Rightarrow> regex" where
  "three_or_more c = Seq (Lit [c, c, c]) (Star True (Lit [c]))"

definition re_hr :: regex where
  "re_hr =
     seqs [Bol, Star True (Cls is_space),
           Grp 1 (Alt (three_or_more CHR ''-'')
                   (Alt (three_or_more CHR ''*'') (three_or_more CHR ''_''))),
           Star True (Cls is_space), Eol]"

definition re_blockquote :: regex where
  "re_blockquote = seqs [Bol, Lit ''&gt;'', Opt (Cls is_space), Grp 1 (Plus (Cls dot)), Eol]"

definition re_ul_item :: regex where
  "re_ul_item =
     seqs [Bol, Cls (one_of ''-+*''), Plus (Cls is_space), Grp 1 (Plus (Cls dot)), Eol]"

definition re_ol_item :: regex where
  "re_ol_item =
     seqs [Bol, Plus (Cls is_digit), Lit ''.'', Plus (Cls is_space), Grp 1 (Plus (Cls dot)), Eol]"

definition re_li_run :: regex where
  "re_li_run =
     Plus (Grp 1 (seqs [Lit ''<li>'', Star True (Cls dot), Lit ''</li>'', Opt (Lit ''\<newline>'')]))"

definition re_ordered_mark :: regex where
  "re_ordered_mark = seqs [Plus (Cls is_digit), Lit ''.'', Cls is_space]"

definition li_run_cb :: "string \<Rightarrow> (nat \<times> string) list \<Rightarrow> unit \<Rightarrow> string \<times> unit" where
  "li_run_cb m caps u =
     (if js_test re_ordered_mark m then (''<ol>'' @ m @ ''</ol>'', u)
      else (''<ul>'' @ m @ ''</ul>'', u))"

definition re_bold :: regex where
  "re_bold = seqs [Lit ''**'', Grp 1 (PlusLazy (Cls (not_in ''*''))), Lit ''**'']"

definition re_italic_star :: regex where
  "re_italic_star =
     seqs [NotAfter (one_of ''*''), Lit ''*'', Grp 1 (PlusLazy (Cls (not_in ''*\<newline>''))),
           Lit ''*'', NotBefore (Lit ''*'')]"

definition re_italic_underscore :: regex where
  "re_italic_underscore =
     seqs [NotAfter (one_of ''_''), Lit ''_'', Grp 1 (PlusLazy (Cls (not_in ''_\<newline>''))),
           Lit ''_'', NotBefore (Lit ''_'')]"

definition re_strike :: regex where
  "re_strike = seqs [Lit ''~~'', Grp 1 (PlusLazy (Cls (not_in ''~''))), Lit ''~~'']"

definition re_link :: regex where
  "re_link =
     seqs [Lit ''['', Grp 1 (Plus (Cls (not_in '']''))), Lit '']('',
           Grp 2 (Plus (Cls (not_in '')''))), Lit '')'']"

definition re_image :: regex where
  "re_image =
     seqs [Lit ''!['', Grp 1 (Star True (Cls (not_in '']''))), Lit '']('',
           Grp 2 (Plus (Cls (not_in '')''))), Lit '')'']"

definition link_tmpl :: string where
  \<open>link_tmpl = ''<a href="$2" target="_blank" rel="noopener noreferrer">$1</a>''\<close>

definition image_tmpl :: string where
  \<open>image_tmpl = ''<img src="$2" alt="$1" loading="lazy">''\<close>

text \<open>The span rules (bold to images), shared by the renderer and the table cells.\<close>

definition format_spans :: "string \<Rightarrow> string" where
  "format_spans html =
     js_replace re_image image_tmpl
      (js_replace re_link link_tmpl
        (js_replace re_strike ''<del>$1</del>''
          (js_replace re_italic_underscore ''<em>$1</em>''
            (js_replace re_italic_star ''<em>$1</em>''
              (js_replace re_bold ''<strong>$1</strong>'' html)))))"

definition format_blocks :: "string \<Rightarrow> string" where
  "format_blocks html =
     fst (js_replace_fn re_li_run li_run_cb
      (js_replace re_ol_item ''<li>$1</li>''
        (js_replace re_ul_item ''<li>$1</li>''
          (js_replace re_blockquote ''<blockquote>$1</blockquote>''
            (js_replace re_hr ''<hr>''
              (js_replace (re_header 1) (header_tmpl 1)
                (js_replace (re_header 2) (header_tmpl 2)
                  (js_replace (re_header 3) (header_tmpl 3)
                    (js_replace (re_header 4) (header_tmpl 4)
                      (js_replace (re_header 5) (header_tmpl 5)
                        (js_replace (re_header 6) (header_tmpl 6) html)))))))))) ())"

definition re_double_p :: regex where
  "re_double_p = seqs [Lit ''</p><p>'', Star True (Cls is_space), Lit ''<p>'']"

definition re_empty_p :: regex where
  "re_empty_p = seqs [Lit ''<p>'', Star True (Cls is_space), Lit ''</p>'']"

definition paragraphs :: "string \<Rightarrow> string" where
  "paragraphs html =
     js_replace re_empty_p []
      (js_replace re_double_p ''</p><p>''
        (''<p>'' @
           js_replace (Lit ''\<newline>'') ''<br>''
             (js_replace (Lit ''\<newline>\<newline>'') ''</p><p>'' html)
         @ ''</p>''))"

subsection \<open>Inline formatter of the table cells\<close>

definition re_inlinecode_ref :: regex where
  "re_inlinecode_ref = seqs [Lit ''__INLINECODE_'', Grp 1 (Plus (Cls is_digit)), Lit ''__'']"

definition inline_code_html :: "string \<Rightarrow> string" where
  \<open>inline_code_html escaped = ''<code class="inline-code">'' @ escaped @ ''</code>''\<close>

definition inlinecode_ref_cb :: "string list \<Rightarrow> string \<Rightarrow> (nat \<times> string) list \<Rightarrow> unit \<Rightarrow> string \<times> unit" where
  "inlinecode_ref_cb inlineCodes m caps u =
     (let codeIndex = parseInt (capture caps 1)
      in if codeIndex < length inlineCodes
         then (inline_code_html (escapeHtml (inlineCodes ! codeIndex)), u)
         else (m, u))"

definition parseInlineMarkdown :: "string \<Rightarrow> string list \<Rightarrow> string" where
  "parseInlineMarkdown text inlineCodes =
     (if text = [] then []
      else format_spans
             (fst (js_replace_fn re_inlinecode_ref (inlinecode_ref_cb inlineCodes) text ())))"

subsection \<open>Table parser\<close>

definition re_separator :: regex where
  "re_separator =
     seqs [Bos, Lit ''|'', Plus (Cls (\<lambda>c. is_space c \<or> c \<in> set ''-:|'')), Lit ''|'', Eos]"

fun find_separator :: "string list \<Rightarrow> nat \<Rightarrow> nat option" where
  "find_separator [] i = None"
| "find_separator (l # ls) i =
     (if js_test re_separator (trim l) then Some i else find_separator ls (Suc i))"

definition alignment :: "string \<Rightarrow> string" where
  "alignment cell =
     (let trimmed = trim cell;
          leftColon = (trimmed \<noteq> [] \<and> hd trimmed = CHR '':'');
          rightColon = (trimmed \<noteq> [] \<and> last trimmed = CHR '':'')
      in if leftColon \<and> rightColon then ''center''
         else if rightColon then ''right''
         else if leftColon then ''left''
         else ''left'')"

definition row_cells :: "string \<Rightarrow> string list" where
  "row_cells row =
     (let arr = split_on CHR ''|'' row
      in map snd (filter (\<lambda>(idx, cell). \<not> (idx = 0 \<and> trim cell = []) \<and>
                                      \<not> (Suc idx = length arr \<and> trim cell = []))
                   (enumerate 0 arr)))"

definition render_cell :: "string \<Rightarrow> string list \<Rightarrow> string list \<Rightarrow> nat \<times> string \<Rightarrow> string" where
  \<open>render_cell tag alignments inlineCodes ic =
     (case ic of (idx, cell) \<Rightarrow>
        (let align = (if idx < length alignments then alignments ! idx else ''left'');
             cellContent = parseInlineMarkdown (escapeHtml (trim cell)) inlineCodes
         in ''<'' @ tag @ '' style="text-align: '' @ align @ ''">'' @ cellContent
            @ ''</'' @ tag @ ''>''))\<close>

definition render_row :: "string \<Rightarrow> string list \<Rightarrow> string list \<Rightarrow> string \<Rightarrow> string" where
  "render_row tag alignments inlineCodes row =
     ''<tr>'' @ concat (map (render_cell tag alignments inlineCodes) (enumerate 0 (row_cells row)))
     @ ''</tr>''"

definition parseTable :: "string list \<Rightarrow> string list \<Rightarrow> string" where
  \<open>parseTable lines inlineCodes =
     (if length lines < 2 then []
      else case find_separator lines 0 of
        None \<Rightarrow> join ''\<newline>'' lines
      | Some separatorIndex \<Rightarrow>
          (let separatorCells =
                 filter (\<lambda>cell. trim cell \<noteq> []) (split_on CHR ''|'' (lines ! separatorIndex));
               alignments = map alignment separatorCells;
               headerRows = take separatorIndex lines;
               bodyRows = drop (Suc separatorIndex) lines
           in ''<div class="table-wrapper"><table>''
              @ (if headerRows \<noteq> []
                 then ''<thead>'' @ concat (map (render_row ''th'' alignments inlineCodes) headerRows)
                      @ ''</thead>''
                 else [])
              @ (if bodyRows \<noteq> []
                 then ''<tbody>''
                      @ concat (map (\<lambda>row. if trim row = [] then []
                                            else render_row ''td'' alignments inlineCodes row)
                                  bodyRows)
                      @ ''</tbody>''
                 else [])
              @ ''</table></div>''))\<close>

subsection \<open>Step 6: restoring the protected content\<close>

definition restore_inline :: "string list \<Rightarrow> string \<Rightarrow> string" where
  "restore_inline inlineCodes html =
     foldl (\<lambda>h i. js_replace (Lit (inlinecode_placeholder i))
                     (inline_code_html (escapeHtml (inlineCodes ! i))) h)
           html [0..<length inlineCodes]"

definition restore_tables :: "string list list \<Rightarrow> string list \<Rightarrow> string \<Rightarrow> string" where
  "restore_tables tables inlineCodes html =
     foldl (\<lambda>h i. js_replace (Lit (table_placeholder i)) (parseTable (tables ! i) inlineCodes) h)
           html [0..<length tables]"

definition code_html :: "code_block \<Rightarrow> string" where
  \<open>code_html block =
     (let escaped = escapeHtml (code block);
          langClass = ''language-'' @ language block;
          langDisplay = (if language block = ''plaintext'' then ''text'' else language block)
      in ''\<newline>      <div class="code-block-wrapper">\<newline>        <div class="code-header">\<newline>          <span class="code-language">''
         @ escapeHtml langDisplay
         @ ''</span>\<newline>          <button class="copy-btn" onclick="copyCode(this)" title="Copy code">\<newline>            <svg width="16" height="16" viewBox="0 0 24 24" fill="none" stroke="currentColor" stroke-width="2">\<newline>              <rect x="9" y="9" width="13" height="13" rx="2" ry="2"></rect>\<newline>              <path d="M5 15H4a2 2 0 0 1-2-2V4a2 2 0 0 1 2-2h9a2 2 0 0 1 2 2v1"></path>\<newline>            </svg>\<newline>            <span>Copy</span>\<newline>          </button>\<newline>        </div>\<newline>        <pre class="code-block"><code class="''
         @ langClass @ ''">'' @ escaped @ ''</code></pre>\<newline>      </div>'')\<close>

definition restore_blocks :: "code_block list \<Rightarrow> string \<Rightarrow> string" where
  "restore_blocks codeBlocks html =
     foldl (\<lambda>h i. js_replace (Lit (codeblock_placeholder i)) (code_html (codeBlocks ! i)) h)
           html [0..<length codeBlocks]"

subsection \<open>Cleanup around block elements\<close>

definition block_names :: "string list" where
  "block_names = [''div'', ''table'', ''ul'', ''ol'', ''blockquote'']"

definition re_h16 :: regex where
  "re_h16 = Seq (Lit ''h'') (Cls (one_of ''123456''))"

definition alts :: "regex list \<Rightarrow> regex" where
  "alts rs = foldr Alt (butlast rs) (last rs)"

definition re_br_before_block :: regex where
  "re_br_before_block =
     seqs [Lit ''<br>'', Opt (Lit ''\<newline>''), Lit ''<'',
           Grp 1 (alts (map Lit block_names @ [re_h16, Lit ''hr'', Lit ''pre'']))]"

definition re_br_after_block :: regex where
  "re_br_after_block =
     seqs [Lit ''</'', Grp 1 (alts (map Lit block_names @ [re_h16, Lit ''pre''])), Lit ''><br>'']"

definition cleanup :: "string \<Rightarrow> string" where
  "cleanup html =
     js_replace (Lit ''<p><br>'') ''<p>''
      (js_replace (Lit ''<br></p>'') ''</p>''
        (js_replace re_br_after_block ''</$1>''
          (js_replace re_br_before_block ''<$1'' html)))"

subsection \<open>The Markdown parser\<close>

definition parseMarkdown :: "string \<Rightarrow> string" where
  "parseMarkdown text =
     (if text = [] then []
      else case extract_regions text of (residual, codeBlocks, inlineCodes, tables) \<Rightarrow>
        cleanup
          (restore_blocks codeBlocks
            (restore_tables tables inlineCodes
              (restore_inline inlineCodes
                (paragraphs (format_spans (format_blocks (escapeHtml residual))))))))"

section \<open>The renderer with its exceptions\<close>

text \<open>
  JavaScript raises a \<open>TypeError\<close> when a property of \<open>undefined\<close> is read or a method of
  \<open>undefined\<close> is called. In the renderer a value can be \<open>undefined\<close> in two ways: a group
  handed to a callback took no part in the match, or an array is read at an index outside
  it. In this section these reads are explicit: \<open>group_at\<close> and \<open>elem_at\<close> return an option,
  and a property read on \<open>None\<close> is the error. Where the source guards the value
  (\<open>code || ''\<close>, \<open>closing === '```'\<close>, \<open>escapeHtml\<close> with its test \<open>!text\<close>,
  \<open>alignments[idx] || 'left'\<close>) nothing is raised, as in the definitions above. The
  semantics is that of the language: the limits of an engine (the stack of its matcher, the
  longest string it can hold) are not part of the source and are not modelled.
\<close>

datatype js_error = TypeError

definition group_at :: "(nat \<times> string) list \<Rightarrow> nat \<Rightarrow> string option" where
  "group_at caps n = map_of caps n"

definition elem_at :: "'a list \<Rightarrow> nat \<Rightarrow> 'a option" where
  "elem_at xs i = (if i < length xs then Some (xs ! i) else None)"



text \<open>Step 1a calls \<open>lang.trim()\<close>: group 2 must have taken part.\<close>

definition fence_lang_exn :: "string \<Rightarrow> (nat \<times> string) list \<Rightarrow> code_block list \<Rightarrow> js_error + string \<times> code_block list" where
  "fence_lang_exn m caps codeBlocks =
     (if group_at caps 4 = Some ''```'' then
        (let cleanCode = js_replace re_blank_edges []
                           (case group_at caps 3 of None \<Rightarrow> [] | Some c \<Rightarrow> c)
         in case group_at caps 2 of
              None \<Rightarrow> Inl TypeError
            | Some l \<Rightarrow>
                (let lang = trim l
                 in if lang \<noteq> [] \<and> toLowerCase lang \<in> set knownLanguages
                    then Inr (codeblock_placeholder (length codeBlocks),
                              codeBlocks @ [\<lparr>language = toLowerCase lang, code = cleanCode\<rparr>])
                    else Inr (m, codeBlocks)))
      else Inr (m, codeBlocks))"



text \<open>
  \<open>parseTable\<close> reads \<open>lines.length\<close> of its argument and calls \<open>split\<close> on
  \<open>lines[separatorIndex]\<close>.
\<close>

definition parseTable_exn :: "string list option \<Rightarrow> string list \<Rightarrow> js_error + string" where
  \<open>parseTable_exn arg inlineCodes =
     (case arg of
        None \<Rightarrow> Inl TypeError
      | Some lines \<Rightarrow>
          if length lines < 2 then Inr []
          else case find_separator lines 0 of
            None \<Rightarrow> Inr (join ''\<newline>'' lines)
          | Some separatorIndex \<Rightarrow>
              (case elem_at lines separatorIndex of
                 None \<Rightarrow> Inl TypeError
               | Some separatorLine \<Rightarrow>
                   (let separatorCells =
                          filter (\<lambda>cell. trim cell \<noteq> []) (split_on CHR ''|'' separatorLine);
                        alignments = map alignment separatorCells;
                        headerRows = take separatorIndex lines;
                        bodyRows = drop (Suc separatorIndex) lines
                    in Inr (''<div class="table-wrapper"><table>''
                       @ (if headerRows \<noteq> []
                          then ''<thead>''
                               @ concat (map (render_row ''th'' alignments inlineCodes) headerRows)
                               @ ''</thead>''
                          else [])
                       @ (if bodyRows \<noteq> []
                          then ''<tbody>''
                               @ concat (map (\<lambda>row. if trim row = [] then []
                                                     else render_row ''td'' alignments inlineCodes row)
                                           bodyRows)
                               @ ''</tbody>''
                          else [])
                       @ ''</table></div>''))))\<close>




section \<open>Calls of the renderer\<close>

text \<open>
  What a call could share with the next one are the three side tables. Here they live in
  a store that outlasts the call: a call finds the store as the call before left it (or in
  any other state) and returns it as it leaves it. The declarations at the head of
  \<open>parseMarkdown\<close> (\<open>const codeBlocks = []\<close>, \<open>const inlineCodes = []\<close>,
  \<open>const tables = []\<close>) bind the three names to new empty arrays; \<open>render_steps\<close> is
  the rest of the body, from step 1a to the \<open>return\<close>, on the tables it is given. Every
  regular expression of the body is a literal (or \<open>new RegExp\<close>) evaluated inside the call,
  hence a new object, and none is used after the call.
\<close>

record side_tables =
  st_codeBlocks :: "code_block list"
  st_inlineCodes :: "string list"
  st_tables :: "string list list"

definition extract_steps :: "string \<Rightarrow> side_tables \<Rightarrow> string \<times> side_tables" where
  "extract_steps text st =
     (case js_replace_fn re_fence_lang fence_lang_cb text (st_codeBlocks st) of (t1, cb1) \<Rightarrow>
      case js_replace_fn re_fence_plain fence_plain_cb t1 cb1 of (t2, codeBlocks) \<Rightarrow>
      case js_replace_fn re_inline1 inline1_cb t2 (st_inlineCodes st) of (t3, ic1) \<Rightarrow>
      case js_replace_fn re_table table_cb t3 (st_tables st) of (t4, tables) \<Rightarrow>
      case js_replace_fn re_inline2 inline2_cb t4 ic1 of (t5, inlineCodes) \<Rightarrow>
        (t5, \<lparr>st_codeBlocks = codeBlocks, st_inlineCodes = inlineCodes, st_tables = tables\<rparr>))"

definition render_steps :: "string \<Rightarrow> side_tables \<Rightarrow> string \<times> side_tables" where
  "render_steps text st =
     (case extract_steps text st of (residual, st') \<Rightarrow>
        (cleanup
          (restore_blocks (st_codeBlocks st')
            (restore_tables (st_tables st') (st_inlineCodes st')
              (restore_inline (st_inlineCodes st')
                (paragraphs (format_spans (format_blocks (escapeHtml residual))))))),
         st'))"

definition parseMarkdown_call :: "string \<Rightarrow> side_tables \<Rightarrow> string \<times> side_tables" where
  "parseMarkdown_call text st =
     (if text = [] then ([], st)
      else render_steps text \<lparr>st_codeBlocks = [], st_inlineCodes = [], st_tables = []\<rparr>)"

section \<open>The sentinels issued in a call\<close>



section \<open>An invariant of the markup\<close>

text \<open>
  The renderer writes a \<open><\<close> only as the start of one of its own tags. The invariant
  follows the markup with three states: in text, after \<open><\<close>, and after \<open><s\<close>. After
  \<open><\<close> comes the first letter of a tag name of the renderer (or \<open>/\<close>); after
  \<open><s\<close> comes \<open>t\<close>, \<open>p\<close> or \<open>v\<close> (\<open>strong\<close>, \<open>span\<close>, \<open>svg\<close>). A string is
  \<open>ok\<close> when it can be read in this way and does not end inside a tag start.
\<close>

datatype tag_state = InText | AfterLt | AfterLtS

definition tag_letter :: "char \<Rightarrow> bool" where
  "tag_letter c = (c \<in> set ''/abcdehiloprstuv'')"

fun tstep :: "tag_state \<Rightarrow> char \<Rightarrow> tag_state option" where
  "tstep InText c = (if c = CHR ''<'' then Some AfterLt else Some InText)"
| "tstep AfterLt c =
     (if c = CHR ''s'' then Some AfterLtS
      else if c \<in> set ''/abcdehiloprtu'' then Some InText else None)"
| "tstep AfterLtS c = (if c \<in> set ''tpv'' then Some InText else None)"

fun trun :: "tag_state \<Rightarrow> string \<Rightarrow> tag_state option" where
  "trun q [] = Some q"
| "trun q (c # cs) = (case tstep q c of None \<Rightarrow> None | Some q' \<Rightarrow> trun q' cs)"

definition ok :: "string \<Rightarrow> bool" where
  "ok s = (trun InText s = Some InText)"

text \<open>What the extraction steps store: language tags without \<open><\<close>, tables with a separator row.\<close>

definition plain_languages :: "code_block list \<Rightarrow> bool" where
  "plain_languages codeBlocks = (\<forall>b\<in>set codeBlocks. CHR ''<'' \<notin> set (language b))"

definition with_separator :: "string list list \<Rightarrow> bool" where
  "with_separator tables = (\<forall>ls\<in>set tables. find_separator ls 0 \<noteq> None)"

section \<open>Properties of the matcher\<close>

declare rmatch.simps [simp del]
declare scan.simps [simp del]
declare show_nat.simps [simp del]

lemmas rmatch_basic [simp] =
  rmatch.simps(1) rmatch.simps(2) rmatch.simps(3) rmatch.simps(4) rmatch.simps(6)
  rmatch.simps(7) rmatch.simps(8) rmatch.simps(9) rmatch.simps(10) rmatch.simps(11)
  rmatch.simps(12) rmatch.simps(13) rmatch.simps(14)

lemma in_rmatch_Star:
  "st' \<in> set (rmatch (Star g a) (p, s, c)) \<longleftrightarrow>
     st' = (p, s, c) \<or>
     (\<exists>p1 s1 c1. (p1, s1, c1) \<in> set (rmatch a (p, s, c)) \<and> length s1 < length s \<and>
        st' \<in> set (rmatch (Star g a) (p1, s1, c1)))"
  by (subst rmatch.simps(5)) (auto simp: Let_def split: if_splits)

lemma strip_prefix_Some_iff: "strip_prefix w s = Some s' \<longleftrightarrow> s = w @ s'"
  by (induction w s rule: strip_prefix.induct) auto

lemma strip_prefix_Some_iff2: "Some s' = strip_prefix w s \<longleftrightarrow> s = w @ s'"
  using strip_prefix_Some_iff[of w s s'] by auto

lemmas strip_prefix_iffs = strip_prefix_Some_iff strip_prefix_Some_iff2

lemma strip_prefix_append [simp]: "strip_prefix w (w @ s) = Some s"
  by (simp add: strip_prefix_Some_iff)

lemma prev_after_append [simp]: "prev_after p (u @ v) = prev_after (prev_after p u) v"
  by (induction u arbitrary: p) auto

lemma prev_after_snoc [simp]: "prev_after p (u @ [x]) = Some x"
  by simp

lemma prev_after_eq: "prev_after p w = (if w = [] then p else Some (last w))"
  by (induction w arbitrary: p) auto

lemma in_rmatch_Lit:
  "(p', s', c') \<in> set (rmatch (Lit w) (p, s, c)) \<longleftrightarrow> s = w @ s' \<and> p' = prev_after p w \<and> c' = c"
  by (auto simp: strip_prefix_iffs split: option.splits)

lemma in_rmatch_Cls:
  "(p', s', c') \<in> set (rmatch (Cls f) (p, s, c)) \<longleftrightarrow> (\<exists>x. s = x # s' \<and> f x \<and> p' = Some x \<and> c' = c)"
  by (auto split: list.splits)

lemma in_rmatch_Seq:
  "st'' \<in> set (rmatch (Seq a b) st) \<longleftrightarrow> (\<exists>st' \<in> set (rmatch a st). st'' \<in> set (rmatch b st'))"
  by auto

lemma in_rmatch_Grp:
  "(p', s', c'') \<in> set (rmatch (Grp n a) (p, s, c)) \<longleftrightarrow>
     (\<exists>c'. (p', s', c') \<in> set (rmatch a (p, s, c)) \<and> c'' = (n, take (length s - length s') s) # c')"
  by force

lemma in_rmatch_Seq3:
  "(p'', s'', c'') \<in> set (rmatch (Seq a b) (p, s, c)) \<longleftrightarrow>
     (\<exists>p' s' c'. (p', s', c') \<in> set (rmatch a (p, s, c)) \<and> (p'', s'', c'') \<in> set (rmatch b (p', s', c')))"
  by auto

lemma in_rmatch_Alt:
  "st' \<in> set (rmatch (Alt a b) st) \<longleftrightarrow> st' \<in> set (rmatch a st) \<or> st' \<in> set (rmatch b st)"
  by auto

lemma in_rmatch_Opt:
  "st' \<in> set (rmatch (Opt a) st) \<longleftrightarrow> st' \<in> set (rmatch a st) \<or> st' = st"
  by auto

lemma in_rmatch_Backref:
  "(p', s', c') \<in> set (rmatch (Backref n) (p, s, c)) \<longleftrightarrow>
     s = capture c n @ s' \<and> p' = prev_after p (capture c n) \<and> c' = c"
  by (auto simp: strip_prefix_iffs split: option.splits)

lemma in_rmatch_Bol:
  "(p', s', c') \<in> set (rmatch Bol (p, s, c)) \<longleftrightarrow>
     (p', s', c') = (p, s, c) \<and> (p = None \<or> (\<exists>x. p = Some x \<and> is_line_term x))"
  by (auto split: option.splits)

lemma in_rmatch_Eol:
  "(p', s', c') \<in> set (rmatch Eol (p, s, c)) \<longleftrightarrow>
     (p', s', c') = (p, s, c) \<and> (s = [] \<or> (\<exists>x xs. s = x # xs \<and> is_line_term x))"
  by (auto split: list.splits)

lemma in_rmatch_Bos:
  "(p', s', c') \<in> set (rmatch Bos (p, s, c)) \<longleftrightarrow> (p', s', c') = (p, s, c) \<and> p = None"
  by (auto split: option.splits)

lemma in_rmatch_Eos:
  "(p', s', c') \<in> set (rmatch Eos (p, s, c)) \<longleftrightarrow> (p', s', c') = (p, s, c) \<and> s = []"
  by (auto split: list.splits)

lemma in_rmatch_NotAfter:
  "(p', s', c') \<in> set (rmatch (NotAfter f) (p, s, c)) \<longleftrightarrow>
     (p', s', c') = (p, s, c) \<and> (p = None \<or> (\<exists>x. p = Some x \<and> \<not> f x))"
  by (auto split: option.splits)

lemma in_rmatch_NotBefore:
  "st' \<in> set (rmatch (NotBefore a) st) \<longleftrightarrow> st' = st \<and> rmatch a st = []"
  by auto

lemma rmatch_Lit_Nil_iff:
  "rmatch (Lit w) (p, s, c) = [] \<longleftrightarrow> \<not> (\<exists>s'. s = w @ s')"
  by (auto simp: strip_prefix_iffs split: option.splits)

lemmas in_rmatch =
  in_rmatch_Lit in_rmatch_Cls in_rmatch_Seq3 in_rmatch_Alt in_rmatch_Opt in_rmatch_Grp
  in_rmatch_Backref in_rmatch_Bol in_rmatch_Eol in_rmatch_Bos in_rmatch_Eos in_rmatch_NotAfter
  in_rmatch_NotBefore


lemma rmatch_suffix:
  "(p', s', c') \<in> set (rmatch r (p, s, c)) \<Longrightarrow> \<exists>w. s = w @ s' \<and> p' = prev_after p w"
proof (induction r "(p, s, c)" arbitrary: p s c p' s' c' rule: rmatch.induct)
  case (1 w p s c)
  then show ?case by (auto simp: strip_prefix_iffs split: option.splits)
next
  case (2 f p s c)
  then show ?case by (auto split: list.splits if_splits)
next
  case (3 a b)
  from "3.prems" obtain p1 s1 c1 where a: "(p1, s1, c1) \<in> set (rmatch a (p, s, c))"
    and b: "(p', s', c') \<in> set (rmatch b (p1, s1, c1))"
    by auto
  from "3.hyps"(1)[OF a] obtain w1 where w1: "s = w1 @ s1" "p1 = prev_after p w1"
    by blast
  from "3.hyps"(2)[OF a b] obtain w2 where w2: "s1 = w2 @ s'" "p' = prev_after p1 w2"
    by blast
  show ?case using w1 w2 by (intro exI[of _ "w1 @ w2"]) simp
next
  case (4 a b)
  from "4.prems" have "(p', s', c') \<in> set (rmatch a (p, s, c)) \<or> (p', s', c') \<in> set (rmatch b (p, s, c))"
    by simp
  then show ?case using "4.hyps" by blast
next
  case (5 greedy a p s c)
  show ?case
  proof (cases "(p', s', c') = (p, s, c)")
    case True
    then show ?thesis by (intro exI[of _ "[]"]) simp
  next
    case False
    with "5.prems" obtain p1 s1 c1 where a: "(p1, s1, c1) \<in> set (rmatch a (p, s, c))"
      and len: "length s1 < length s" and r: "(p', s', c') \<in> set (rmatch (Star greedy a) (p1, s1, c1))"
      unfolding in_rmatch_Star[of "(p', s', c')" greedy a p s c] by blast
    from "5.hyps"(1)[OF a] obtain w1 where w1: "s = w1 @ s1" "p1 = prev_after p w1" by auto
    from "5.hyps"(2)[OF a refl refl len r] obtain w2 where w2: "s1 = w2 @ s'" "p' = prev_after p1 w2"
      by auto
    show ?thesis using w1 w2 by (intro exI[of _ "w1 @ w2"]) simp
  qed
next
  case (6 a)
  from "6.prems" have "(p', s', c') \<in> set (rmatch a (p, s, c)) \<or> (p', s', c') = (p, s, c)"
    by auto
  then show ?case
  proof
    assume "(p', s', c') \<in> set (rmatch a (p, s, c))"
    from "6.hyps"[OF this] show ?thesis .
  next
    assume "(p', s', c') = (p, s, c)"
    then show ?thesis by (intro exI[of _ "[]"]) simp
  qed
next
  case (7 n a p s c)
  from "7.prems" obtain c1 where "(p', s', c1) \<in> set (rmatch a (p, s, c))" by auto
  from "7.hyps"[OF this] show ?case .
next
  case (8 n p s c)
  then show ?case by (auto simp: strip_prefix_iffs split: option.splits)
next
  case (9 p s c)
  then show ?case by (intro exI[of _ "[]"]) (auto split: option.splits if_splits)
next
  case (10 p s c)
  then show ?case by (intro exI[of _ "[]"]) (auto split: list.splits if_splits)
next
  case (11 p s c)
  then show ?case by (intro exI[of _ "[]"]) (auto split: option.splits if_splits)
next
  case (12 p s c)
  then show ?case by (intro exI[of _ "[]"]) (auto split: list.splits if_splits)
next
  case (13 f p s c)
  then show ?case by (intro exI[of _ "[]"]) (auto split: option.splits if_splits)
next
  case (14 a)
  then show ?case by (intro exI[of _ "[]"]) (auto split: if_splits)
qed

subsection \<open>Decimal numerals\<close>

lemma digit_val_digit_char: "d < 10 \<Longrightarrow> digit_val (digit_char d) = d"
proof -
  assume "d < 10"
  then have "d \<in> {0,1,2,3,4,5,6,7,8,9}" by auto
  then show ?thesis by (auto simp: digit_val_def digit_char_def)
qed

lemma is_digit_digit_char: "d < 10 \<Longrightarrow> is_digit (digit_char d)"
proof -
  assume "d < 10"
  then have "d \<in> {0,1,2,3,4,5,6,7,8,9}" by auto
  then show ?thesis by (auto simp: is_digit_def digit_char_def)
qed

lemma parseInt_snoc: "parseInt (ds @ [d]) = 10 * parseInt ds + digit_val d"
  by (simp add: parseInt_def)

lemma parseInt_show_nat: "parseInt (show_nat n) = n"
proof (induction n rule: show_nat.induct)
  case (1 n)
  show ?case
  proof (cases "n < 10")
    case True
    then show ?thesis
      by (subst show_nat.simps) (simp add: parseInt_def digit_val_digit_char)
  next
    case False
    then have "parseInt (show_nat (n div 10)) = n div 10" using 1 by simp
    with False show ?thesis
      by (subst show_nat.simps) (simp add: parseInt_snoc digit_val_digit_char)
  qed
qed


lemma show_nat_digits: "\<forall>x\<in>set (show_nat n). is_digit x"
proof (induction n rule: show_nat.induct)
  case (1 n)
  show ?case
  proof (cases "n < 10")
    case True
    then show ?thesis by (subst show_nat.simps) (simp add: is_digit_digit_char)
  next
    case False
    then have "\<forall>x\<in>set (show_nat (n div 10)). is_digit x" using 1 by simp
    with False show ?thesis
      by (subst show_nat.simps) (simp add: is_digit_digit_char)
  qed
qed

lemma show_nat_nonempty: "show_nat n \<noteq> []"
  by (subst show_nat.simps) simp

subsection \<open>The first result of the matcher\<close>

lemma first_Seq:
  "rmatch a st = x # xs \<Longrightarrow> rmatch b x = y # ys \<Longrightarrow> \<exists>tl. rmatch (Seq a b) st = y # tl"
  by simp

lemma first_Grp:
  "rmatch a (p, s, c) = (p', s', c') # xs \<Longrightarrow>
   \<exists>tl. rmatch (Grp n a) (p, s, c) = (p', s', (n, take (length s - length s') s) # c') # tl"
  by simp

lemma first_Star_greedy_Cls:
  "\<forall>x\<in>set w. f x \<Longrightarrow> r = [] \<or> \<not> f (hd r) \<Longrightarrow>
   \<exists>tl. rmatch (Star True (Cls f)) (p, w @ r, c) = (prev_after p w, r, c) # tl"
proof (induction w arbitrary: p)
  case Nil
  then have "rmatch (Cls f) (p, r, c) = []" by (cases r) auto
  then show ?case by (subst rmatch.simps(5)) simp
next
  case (Cons x w)
  from Cons.prems have fx: "f x" and fw: "\<forall>x\<in>set w. f x" by auto
  from Cons.IH[OF fw Cons.prems(2)] obtain tl where
    tl: "rmatch (Star True (Cls f)) (Some x, w @ r, c) = (prev_after (Some x) w, r, c) # tl"
    by blast
  show ?case
    by (subst rmatch.simps(5)) (simp add: fx tl)
qed

lemma first_Plus_Cls:
  "w \<noteq> [] \<Longrightarrow> \<forall>x\<in>set w. f x \<Longrightarrow> r = [] \<or> \<not> f (hd r) \<Longrightarrow>
   \<exists>tl. rmatch (Plus (Cls f)) (p, w @ r, c) = (prev_after p w, r, c) # tl"
proof -
  assume ne: "w \<noteq> []" and all: "\<forall>x\<in>set w. f x" and r: "r = [] \<or> \<not> f (hd r)"
  from ne obtain x w' where w: "w = x # w'" by (cases w) auto
  with all have fx: "f x" and fw: "\<forall>x\<in>set w'. f x" by auto
  from first_Star_greedy_Cls[OF fw r, of "Some x" c] obtain tl where
    "rmatch (Star True (Cls f)) (Some x, w' @ r, c) = (prev_after (Some x) w', r, c) # tl" by blast
  then show ?thesis by (simp add: Plus_def w fx)
qed

subsection \<open>Scanning without a match\<close>

lemma exec_at_None_iff:
  "exec_at re rpre s = None \<longleftrightarrow> rmatch re (case rpre of [] \<Rightarrow> None | c # _ \<Rightarrow> Some c, s, []) = []"
  by (auto simp: exec_at_def split: list.splits)

lemma scan_no_match:
  "(\<And>u v. s = u @ v \<Longrightarrow> exec_at re (rev u @ rpre) v = None) \<Longrightarrow> scan re rpre s = map Keep s"
proof (induction s arbitrary: rpre)
  case Nil
  from Nil[of "[]" "[]"] show ?case by (subst scan.simps) simp
next
  case (Cons x s)
  from Cons.prems[of "[]" "x # s"] have here: "exec_at re rpre (x # s) = None" by simp
  have "scan re (x # rpre) s = map Keep s"
  proof (rule Cons.IH)
    fix u v assume "s = u @ v"
    then have "x # s = (x # u) @ v" by simp
    from Cons.prems[OF this] show "exec_at re (rev u @ x # rpre) v = None" by simp
  qed
  with here show ?case by (subst scan.simps) simp
qed

lemma js_replace_no_match:
  "(\<And>u v. s = u @ v \<Longrightarrow> exec_at re (rev u) v = None) \<Longrightarrow> js_replace re tmpl s = s"
proof -
  assume a: "\<And>u v. s = u @ v \<Longrightarrow> exec_at re (rev u) v = None"
  have "scan re [] s = map Keep s"
    by (rule scan_no_match) (use a in simp)
  then show ?thesis by (simp add: js_replace_def comp_def)
qed

text \<open>A pattern whose every match starts with the character \<open>c0\<close>.\<close>

lemma js_replace_absent_first:
  assumes "\<And>p v c. rmatch re (p, v, c) \<noteq> [] \<Longrightarrow> \<exists>v'. v = c0 # v'"
    and "c0 \<notin> set s"
  shows "js_replace re tmpl s = s"
proof (rule js_replace_no_match)
  fix u v assume s: "s = u @ v"
  show "exec_at re (rev u) v = None"
  proof (rule ccontr)
    assume "exec_at re (rev u) v \<noteq> None"
    then have "rmatch re (case rev u of [] \<Rightarrow> None | c # _ \<Rightarrow> Some c, v, []) \<noteq> []"
      by (simp add: exec_at_None_iff)
    from assms(1)[OF this] obtain v' where "v = c0 # v'" by blast
    with s assms(2) show False by auto
  qed
qed

lemma in_rmatch_Star_Cls:
  "(p', s', c') \<in> set (rmatch (Star g (Cls f)) (p, s, c)) \<Longrightarrow>
     \<exists>w. s = w @ s' \<and> (\<forall>x\<in>set w. f x) \<and> c' = c"
proof (induction s arbitrary: p)
  case Nil
  then show ?case
    by (subst (asm) in_rmatch_Star) auto
next
  case (Cons x s)
  from Cons.prems show ?case
  proof (subst (asm) in_rmatch_Star, elim disjE exE conjE)
    assume "(p', s', c') = (p, x # s, c)"
    then show ?thesis by (intro exI[of _ "[]"]) simp
  next
    fix p1 s1 c1
    assume a: "(p1, s1, c1) \<in> set (rmatch (Cls f) (p, x # s, c))"
      and r: "(p', s', c') \<in> set (rmatch (Star g (Cls f)) (p1, s1, c1))"
    from a have 1: "s1 = s" "f x" "c1 = c" by (auto split: if_splits)
    from Cons.IH[of p1] r 1 obtain w where "s = w @ s'" "\<forall>x\<in>set w. f x" "c' = c" by auto
    with 1 show ?thesis by (intro exI[of _ "x # w"]) simp
  qed
qed

lemma in_rmatch_PlusLazy_Cls:
  "(p', s', c') \<in> set (rmatch (PlusLazy (Cls f)) (p, s, c)) \<Longrightarrow>
     \<exists>w. s = w @ s' \<and> w \<noteq> [] \<and> (\<forall>x\<in>set w. f x) \<and> c' = c"
proof -
  assume "(p', s', c') \<in> set (rmatch (PlusLazy (Cls f)) (p, s, c))"
  then obtain x s1 where s: "s = x # s1" "f x"
    and r: "(p', s', c') \<in> set (rmatch (Star False (Cls f)) (Some x, s1, c))"
    by (auto simp: PlusLazy_def split: list.splits if_splits)
  from in_rmatch_Star_Cls[OF r] obtain w where "s1 = w @ s'" "\<forall>x\<in>set w. f x" "c' = c" by blast
  with s show ?thesis by (intro exI[of _ "x # w"]) simp
qed

lemma in_rmatch_Plus_Cls:
  "(p', s', c') \<in> set (rmatch (Plus (Cls f)) (p, s, c)) \<Longrightarrow>
     \<exists>w. s = w @ s' \<and> w \<noteq> [] \<and> (\<forall>x\<in>set w. f x) \<and> c' = c"
proof -
  assume "(p', s', c') \<in> set (rmatch (Plus (Cls f)) (p, s, c))"
  then obtain x s1 where s: "s = x # s1" "f x"
    and r: "(p', s', c') \<in> set (rmatch (Star True (Cls f)) (Some x, s1, c))"
    by (auto simp: Plus_def split: list.splits if_splits)
  from in_rmatch_Star_Cls[OF r] obtain w where "s1 = w @ s'" "\<forall>x\<in>set w. f x" "c' = c" by blast
  with s show ?thesis by (intro exI[of _ "x # w"]) simp
qed

lemma in_rmatch_Star_Cls_iff:
  "(p', s', c') \<in> set (rmatch (Star g (Cls f)) (p, s, c)) \<longleftrightarrow>
     (\<exists>w. s = w @ s' \<and> (\<forall>x\<in>set w. f x) \<and> c' = c \<and> p' = prev_after p w)"
proof
  assume a: "(p', s', c') \<in> set (rmatch (Star g (Cls f)) (p, s, c))"
  from in_rmatch_Star_Cls[OF a] obtain w where w: "s = w @ s'" "\<forall>x\<in>set w. f x" "c' = c" by blast
  from rmatch_suffix[OF a] obtain w' where w': "s = w' @ s'" "p' = prev_after p w'" by blast
  from w(1) w'(1) have "w = w'" by simp
  with w w' show "\<exists>w. s = w @ s' \<and> (\<forall>x\<in>set w. f x) \<and> c' = c \<and> p' = prev_after p w" by blast
next
  assume "\<exists>w. s = w @ s' \<and> (\<forall>x\<in>set w. f x) \<and> c' = c \<and> p' = prev_after p w"
  then obtain w where "s = w @ s'" "\<forall>x\<in>set w. f x" "c' = c" "p' = prev_after p w" by blast
  then show "(p', s', c') \<in> set (rmatch (Star g (Cls f)) (p, s, c))"
  proof (induction w arbitrary: p s)
    case Nil
    then show ?case by (subst in_rmatch_Star) simp
  next
    case (Cons x w)
    have "(p', s', c') \<in> set (rmatch (Star g (Cls f)) (Some x, w @ s', c))"
      using Cons.prems by (intro Cons.IH) auto
    with Cons.prems show ?case
      by (subst in_rmatch_Star) (auto intro!: exI[of _ "Some x"] exI[of _ "w @ s'"])
  qed
qed

lemma in_rmatch_PlusLazy_Cls_iff:
  "(p', s', c') \<in> set (rmatch (PlusLazy (Cls f)) (p, s, c)) \<longleftrightarrow>
     (\<exists>w. s = w @ s' \<and> w \<noteq> [] \<and> (\<forall>x\<in>set w. f x) \<and> c' = c \<and> p' = prev_after p w)"
  unfolding PlusLazy_def in_rmatch_Seq3 in_rmatch_Cls in_rmatch_Star_Cls_iff
  apply (rule iffI)
   apply (elim exE conjE)
  subgoal for p1 s1 c1 x w by (intro exI[of _ "x # w"]) simp
  apply (elim exE conjE)
  subgoal for w by (cases w) auto
  done

lemma in_rmatch_Plus_Cls_iff:
  "(p', s', c') \<in> set (rmatch (Plus (Cls f)) (p, s, c)) \<longleftrightarrow>
     (\<exists>w. s = w @ s' \<and> w \<noteq> [] \<and> (\<forall>x\<in>set w. f x) \<and> c' = c \<and> p' = prev_after p w)"
  unfolding Plus_def in_rmatch_Seq3 in_rmatch_Cls in_rmatch_Star_Cls_iff
  apply (rule iffI)
   apply (elim exE conjE)
  subgoal for p1 s1 c1 x w by (intro exI[of _ "x # w"]) simp
  apply (elim exE conjE)
  subgoal for w by (cases w) auto
  done

lemmas in_rmatch_cls = in_rmatch_Star_Cls_iff in_rmatch_PlusLazy_Cls_iff in_rmatch_Plus_Cls_iff

text \<open>Two ways to cut a string at the first occurrence of a character are the same.\<close>

lemma cut_at_first:
  "a @ x # r = b @ x # r' \<Longrightarrow> x \<notin> set a \<Longrightarrow> x \<notin> set b \<Longrightarrow> a = b \<and> r = r'"
proof (induction a arbitrary: b)
  case Nil
  then show ?case by (cases b) auto
next
  case (Cons y a)
  then show ?case by (cases b) auto
qed

subsection \<open>Where the span rules can start\<close>

lemma starts_Lit:
  "rmatch (Seq (Lit (c0 # w)) r) (p, v, c) \<noteq> [] \<Longrightarrow> \<exists>v'. v = c0 # v'"
  by (cases v) (auto split: option.splits if_splits)

lemma starts_NotAfter_Lit:
  "rmatch (Seq (NotAfter f) (Seq (Lit (c0 # w)) r)) (p, v, c) \<noteq> [] \<Longrightarrow> \<exists>v'. v = c0 # v'"
  by (cases v) (auto split: option.splits if_splits)

lemma starts_bold: "rmatch re_bold (p, v, c) \<noteq> [] \<Longrightarrow> \<exists>v'. v = CHR ''*'' # v'"
  unfolding re_bold_def seqs.simps by (rule starts_Lit)

lemma starts_italic_star: "rmatch re_italic_star (p, v, c) \<noteq> [] \<Longrightarrow> \<exists>v'. v = CHR ''*'' # v'"
  unfolding re_italic_star_def seqs.simps by (rule starts_NotAfter_Lit)

lemma starts_italic_underscore:
  "rmatch re_italic_underscore (p, v, c) \<noteq> [] \<Longrightarrow> \<exists>v'. v = CHR ''_'' # v'"
  unfolding re_italic_underscore_def seqs.simps by (rule starts_NotAfter_Lit)

lemma starts_strike: "rmatch re_strike (p, v, c) \<noteq> [] \<Longrightarrow> \<exists>v'. v = CHR ''~'' # v'"
  unfolding re_strike_def seqs.simps by (rule starts_Lit)

lemma starts_link: "rmatch re_link (p, v, c) \<noteq> [] \<Longrightarrow> \<exists>v'. v = CHR ''['' # v'"
  unfolding re_link_def seqs.simps by (rule starts_Lit)

lemma starts_image: "rmatch re_image (p, v, c) \<noteq> [] \<Longrightarrow> \<exists>v'. v = CHR ''!'' # v'"
  unfolding re_image_def seqs.simps by (rule starts_Lit)

subsection \<open>The underscore rule on a sentinel\<close>

lemma rmatch_Nil_iff: "rmatch r st = [] \<longleftrightarrow> (\<forall>p' s' c'. (p', s', c') \<notin> set (rmatch r st))"
  by (cases "rmatch r st") auto

lemma digit_not_underscore: "is_digit x \<Longrightarrow> x \<noteq> CHR ''_''"
  by (auto simp: is_digit_def)

lemma iu_shape:
  "(p', s', c') \<in> set (rmatch re_italic_underscore (p, s, c)) \<Longrightarrow>
     \<exists>w. s = CHR ''_'' # w @ CHR ''_'' # s' \<and> w \<noteq> [] \<and> (\<forall>x\<in>set w. not_in ''_\<newline>'' x)
       \<and> (p = None \<or> (\<exists>x. p = Some x \<and> x \<noteq> CHR ''_'')) \<and> (s' = [] \<or> hd s' \<noteq> CHR ''_'')"
  unfolding re_italic_underscore_def seqs.simps in_rmatch in_rmatch_cls rmatch_Lit_Nil_iff
  apply (elim exE conjE)
  apply (simp add: one_of_def)
  apply (cases s')
   apply auto
  done


lemma iu_not_us: "x \<noteq> CHR ''_'' \<Longrightarrow> rmatch re_italic_underscore (p, x # xs, c) = []"
  unfolding rmatch_Nil_iff using iu_shape[of _ _ _ p "x # xs" c] by auto

lemma iu_nil: "rmatch re_italic_underscore (p, [], c) = []"
  unfolding rmatch_Nil_iff using iu_shape[of _ _ _ p "[]" c] by auto

lemma iu_double: "rmatch re_italic_underscore (p, CHR ''_'' # CHR ''_'' # xs, c) = []"
  unfolding rmatch_Nil_iff
proof (intro allI notI)
  fix p' s' c'
  assume "(p', s', c') \<in> set (rmatch re_italic_underscore (p, CHR ''_'' # CHR ''_'' # xs, c))"
  from iu_shape[OF this] obtain w where
    "CHR ''_'' # xs = w @ CHR ''_'' # s'" "w \<noteq> []" "\<forall>x\<in>set w. not_in ''_\<newline>'' x" by auto
  then show False by (cases w) (auto simp: not_in_def)
qed

lemma iu_prev: "rmatch re_italic_underscore (Some CHR ''_'', v, c) = []"
  unfolding rmatch_Nil_iff using iu_shape[of _ _ _ "Some CHR ''_''" v c] by auto

lemma iu_single_end: "rmatch re_italic_underscore (p, ''_'', c) = []"
  unfolding rmatch_Nil_iff using iu_shape[of _ _ _ p "''_''" c] by auto

lemma iu_after:
  assumes ds: "\<forall>x\<in>set ds. is_digit x"
  shows "rmatch re_italic_underscore (p, CHR ''_'' # ds @ ''__'', c) = []"
  unfolding rmatch_Nil_iff
proof (intro allI notI)
  fix p' s' c'
  assume "(p', s', c') \<in> set (rmatch re_italic_underscore (p, CHR ''_'' # ds @ ''__'', c))"
  from iu_shape[OF this] obtain w where eq: "ds @ ''__'' = w @ CHR ''_'' # s'"
    and w: "\<forall>x\<in>set w. not_in ''_\<newline>'' x" and s': "s' = [] \<or> hd s' \<noteq> CHR ''_''"
    by auto
  have 1: "CHR ''_'' \<notin> set ds" using ds digit_not_underscore by blast
  have 2: "CHR ''_'' \<notin> set w" using w by (auto simp: not_in_def)
  from eq have 3: "ds @ CHR ''_'' # ''_'' = w @ CHR ''_'' # s'" by simp
  from cut_at_first[OF 3 1 2] have "s' = ''_''" by simp
  with s' show False by simp
qed

lemma scan_Keep_step:
  "rmatch re (case rpre of [] \<Rightarrow> None | c # _ \<Rightarrow> Some c, x # xs, []) = [] \<Longrightarrow>
   scan re rpre (x # xs) = Keep x # scan re (x # rpre) xs"
  by (subst scan.simps) (simp add: exec_at_def)

lemma scan_Nil_step:
  "rmatch re (case rpre of [] \<Rightarrow> None | c # _ \<Rightarrow> Some c, [], []) = [] \<Longrightarrow> scan re rpre [] = []"
  by (subst scan.simps) (simp add: exec_at_def)

lemma iu_scan_tail:
  "\<forall>x\<in>set ds. is_digit x \<Longrightarrow>
   scan re_italic_underscore rpre (ds @ ''__'') = map Keep (ds @ ''__'')"
proof (induction ds arbitrary: rpre)
  case Nil
  show ?case
    by (simp add: scan_Keep_step scan_Nil_step iu_double iu_prev iu_nil iu_single_end split: list.splits)
next
  case (Cons x ds)
  then have "x \<noteq> CHR ''_''" by (simp add: digit_not_underscore)
  with Cons show ?case by (simp add: scan_Keep_step iu_not_us)
qed

lemma iu_scan_sentinel:
  assumes ds: "\<forall>x\<in>set ds. is_digit x"
  shows "scan re_italic_underscore [] (''__INLINECODE_'' @ ds @ ''__'') =
           map Keep (''__INLINECODE_'' @ ds @ ''__'')"
  by (simp add: scan_Keep_step iu_double iu_prev iu_not_us iu_after[OF ds] iu_scan_tail[OF ds])

lemma iu_sentinel:
  "\<forall>x\<in>set ds. is_digit x \<Longrightarrow>
   js_replace re_italic_underscore tmpl (''__INLINECODE_'' @ ds @ ''__'') = ''__INLINECODE_'' @ ds @ ''__''"
  unfolding js_replace_def by (simp only: iu_scan_sentinel) (simp add: comp_def)

lemma sentinel_chars:
  assumes ds: "\<forall>x\<in>set ds. is_digit x" and x: "\<not> is_digit x" "x \<notin> set ''__INLINECODE_''"
  shows "x \<notin> set (''__INLINECODE_'' @ ds @ ''__'')"
proof -
  have "x \<notin> set ds" using ds x(1) by blast
  with x(2) show ?thesis by simp
qed

lemma format_spans_sentinel:
  assumes ds: "\<forall>x\<in>set ds. is_digit x"
  shows "format_spans (''__INLINECODE_'' @ ds @ ''__'') = ''__INLINECODE_'' @ ds @ ''__''"
proof -
  let ?t = "''__INLINECODE_'' @ ds @ ''__''"
  have a: "CHR ''*'' \<notin> set ?t" by (rule sentinel_chars[OF ds]) (simp_all add: is_digit_def)
  have b: "CHR ''~'' \<notin> set ?t" by (rule sentinel_chars[OF ds]) (simp_all add: is_digit_def)
  have c: "CHR ''['' \<notin> set ?t" by (rule sentinel_chars[OF ds]) (simp_all add: is_digit_def)
  have d: "CHR ''!'' \<notin> set ?t" by (rule sentinel_chars[OF ds]) (simp_all add: is_digit_def)
  have 1: "js_replace re_bold tm ?t = ?t" for tm
    by (rule js_replace_absent_first[OF starts_bold a])
  have 2: "js_replace re_italic_star tm ?t = ?t" for tm
    by (rule js_replace_absent_first[OF starts_italic_star a])
  have 3: "js_replace re_italic_underscore tm ?t = ?t" for tm
    by (rule iu_sentinel[OF ds])
  have 4: "js_replace re_strike tm ?t = ?t" for tm
    by (rule js_replace_absent_first[OF starts_strike b])
  have 5: "js_replace re_link tm ?t = ?t" for tm
    by (rule js_replace_absent_first[OF starts_link c])
  have 6: "js_replace re_image tm ?t = ?t" for tm
    by (rule js_replace_absent_first[OF starts_image d])
  show ?thesis unfolding format_spans_def by (simp only: 1 2 3 4 5 6)
qed

lemma inlinecode_ref_first:
  assumes ds: "\<forall>x\<in>set ds. is_digit x" and ne: "ds \<noteq> []"
  shows "\<exists>tl. rmatch re_inlinecode_ref (None, ''__INLINECODE_'' @ ds @ ''__'', []) =
           (Some CHR ''_'', [], [(1, ds)]) # tl"
proof -
  have u: "\<not> is_digit (hd ''__'')" by (simp add: is_digit_def)
  from first_Plus_Cls[OF ne ds, of "''__''" "Some CHR ''_''" "[]"] u obtain tl1 where
    "rmatch (Plus (Cls is_digit)) (Some CHR ''_'', ds @ ''__'', []) = (prev_after (Some CHR ''_'') ds, ''__'', []) # tl1"
    by auto
  from first_Grp[OF this, of 1] obtain tl2 where
    g: "rmatch (Grp 1 (Plus (Cls is_digit))) (Some CHR ''_'', ds @ ''__'', []) =
          (prev_after (Some CHR ''_'') ds, ''__'', [(1, ds)]) # tl2"
    by auto
  have l: "rmatch (Lit ''__'') (prev_after (Some CHR ''_'') ds, ''__'', [(1, ds)]) = [(Some CHR ''_'', [], [(1, ds)])]"
    by simp
  from first_Seq[OF g l] obtain tl3 where
    "rmatch (Seq (Grp 1 (Plus (Cls is_digit))) (Lit ''__'')) (Some CHR ''_'', ds @ ''__'', []) =
       (Some CHR ''_'', [], [(1, ds)]) # tl3" by blast
  then show ?thesis by (simp add: re_inlinecode_ref_def)
qed

lemma inlinecode_ref_nil: "rmatch re_inlinecode_ref (p, [], c) = []"
  by (simp add: re_inlinecode_ref_def)

lemma inlinecode_ref_scan:
  assumes ds: "\<forall>x\<in>set ds. is_digit x" and ne: "ds \<noteq> []"
  shows "scan re_inlinecode_ref [] (''__INLINECODE_'' @ ds @ ''__'') =
           [Hit (''__INLINECODE_'' @ ds @ ''__'') [(1, ds)] [] []]"
proof -
  from inlinecode_ref_first[OF ds ne] obtain tl where
    "rmatch re_inlinecode_ref (None, ''__INLINECODE_'' @ ds @ ''__'', []) =
           (Some CHR ''_'', [], [(1, ds)]) # tl" by blast
  then have "exec_at re_inlinecode_ref [] (''__INLINECODE_'' @ ds @ ''__'') =
           Some (''__INLINECODE_'' @ ds @ ''__'', [(1, ds)], [])"
    by (simp add: exec_at_def)
  then show ?thesis
    by (subst scan.simps) (simp add: scan_Nil_step inlinecode_ref_nil)
qed

lemma parseInlineMarkdown_sentinel:
  assumes ds: "\<forall>x\<in>set ds. is_digit x" and ne: "ds \<noteq> []"
    and out: "length inlineCodes \<le> parseInt ds"
  shows "parseInlineMarkdown (''__INLINECODE_'' @ ds @ ''__'') inlineCodes = ''__INLINECODE_'' @ ds @ ''__''"
proof -
  have "js_replace_fn re_inlinecode_ref (inlinecode_ref_cb inlineCodes) (''__INLINECODE_'' @ ds @ ''__'') ()
          = (''__INLINECODE_'' @ ds @ ''__'', ())"
    unfolding js_replace_fn_def inlinecode_ref_scan[OF ds ne]
    using out by (simp add: inlinecode_ref_cb_def capture_def)
  then show ?thesis
    unfolding parseInlineMarkdown_def by (simp only: fst_conv format_spans_sentinel[OF ds]) simp
qed

subsection \<open>Patterns that need a substring\<close>

lemma js_replace_absent_sublist:
  assumes "\<And>p v c p' s' c'. (p', s', c') \<in> set (rmatch re (p, v, c)) \<Longrightarrow> \<exists>a b. v = a @ w @ b"
    and "\<not> sublist w s"
  shows "js_replace re tmpl s = s"
proof (rule js_replace_no_match)
  fix u v assume s: "s = u @ v"
  show "exec_at re (rev u) v = None"
  proof (rule ccontr)
    assume "exec_at re (rev u) v \<noteq> None"
    then have "rmatch re (case rev u of [] \<Rightarrow> None | c # _ \<Rightarrow> Some c, v, []) \<noteq> []"
      by (simp add: exec_at_None_iff)
    then obtain p' s' c' where
      "(p', s', c') \<in> set (rmatch re (case rev u of [] \<Rightarrow> None | c # _ \<Rightarrow> Some c, v, []))"
      unfolding rmatch_Nil_iff by blast
    from assms(1)[OF this] obtain a b where "v = a @ w @ b" by blast
    with s have "s = (u @ a) @ w @ b" by simp
    then have "sublist w s" unfolding sublist_def by blast
    with assms(2) show False by simp
  qed
qed

lemma Seq_Lit_prefix:
  "(p', s', c') \<in> set (rmatch (Seq (Lit w) r) (p, v, c)) \<Longrightarrow> \<exists>b. v = w @ b"
  unfolding in_rmatch_Seq3 in_rmatch_Lit by blast

lemma br_before_block_needs_br:
  "(p', s', c') \<in> set (rmatch re_br_before_block (p, v, c)) \<Longrightarrow> \<exists>a b. v = a @ ''<br>'' @ b"
  unfolding re_br_before_block_def seqs.simps
  by (drule Seq_Lit_prefix) (metis append_Nil)

lemma br_after_block_needs_br:
  "(p', s', c') \<in> set (rmatch re_br_after_block (p, v, c)) \<Longrightarrow> \<exists>a b. v = a @ ''<br>'' @ b"
proof -
  assume a: "(p', s', c') \<in> set (rmatch re_br_after_block (p, v, c))"
  then obtain p1 s1 c1 where 1: "(p1, s1, c1) \<in> set (rmatch (Lit ''</'') (p, v, c))"
    and 2: "(p', s', c') \<in> set (rmatch (Seq (Grp 1 (alts (map Lit block_names @ [re_h16, Lit ''pre'']))) (Lit ''><br>'')) (p1, s1, c1))"
    unfolding re_br_after_block_def seqs.simps in_rmatch_Seq3 by blast
  from 2 obtain p2 s2 c2 where
    3: "(p2, s2, c2) \<in> set (rmatch (Grp 1 (alts (map Lit block_names @ [re_h16, Lit ''pre'']))) (p1, s1, c1))"
    and 4: "(p', s', c') \<in> set (rmatch (Lit ''><br>'') (p2, s2, c2))"
    unfolding in_rmatch_Seq3 by blast
  from rmatch_suffix[OF 1] obtain w1 where w1: "v = w1 @ s1" by blast
  from rmatch_suffix[OF 3] obtain w2 where w2: "s1 = w2 @ s2" by blast
  from 4 have "s2 = ''><br>'' @ s'" unfolding in_rmatch_Lit by simp
  with w1 w2 have "v = (w1 @ w2 @ ''>'') @ ''<br>'' @ s'" by simp
  then show ?thesis by blast
qed

lemma Lit_br_p_needs:
  "(p', s', c') \<in> set (rmatch (Lit ''<br></p>'') (p, v, c)) \<Longrightarrow> \<exists>a b. v = a @ ''<br>'' @ b"
  unfolding in_rmatch_Lit by (intro exI[of _ "[]"] exI[of _ "''</p>'' @ s'"]) simp

lemma Lit_p_br_needs:
  "(p', s', c') \<in> set (rmatch (Lit ''<p><br>'') (p, v, c)) \<Longrightarrow> \<exists>a b. v = a @ ''<br>'' @ b"
  unfolding in_rmatch_Lit by (intro exI[of _ "''<p>''"] exI[of _ "s'"]) simp

lemma cleanup_without_br:
  assumes "\<not> sublist ''<br>'' html"
  shows "cleanup html = html"
proof -
  have 1: "js_replace re_br_before_block tm html = html" for tm
    by (rule js_replace_absent_sublist[where w = "''<br>''"])
       (erule br_before_block_needs_br, rule assms)
  have 2: "js_replace re_br_after_block tm html = html" for tm
    by (rule js_replace_absent_sublist[where w = "''<br>''"])
       (erule br_after_block_needs_br, rule assms)
  have 3: "js_replace (Lit ''<br></p>'') tm html = html" for tm
    by (rule js_replace_absent_sublist[where w = "''<br>''"])
       (erule Lit_br_p_needs, rule assms)
  have 4: "js_replace (Lit ''<p><br>'') tm html = html" for tm
    by (rule js_replace_absent_sublist[where w = "''<br>''"])
       (erule Lit_p_br_needs, rule assms)
  show ?thesis unfolding cleanup_def by (simp only: 1 2 3 4)
qed

subsection \<open>The sentinels\<close>




subsection \<open>The groups that a callback reads are set\<close>




lemma fence_plain_groups: "{1, 2, 3} \<subseteq> always_set re_fence_plain"
  by (simp add: re_fence_plain_def)

lemma inline1_groups: "1 \<in> always_set re_inline1"
  by (simp add: re_inline1_def)


lemma inlinecode_ref_groups: "1 \<in> always_set re_inlinecode_ref"
  by (simp add: re_inlinecode_ref_def)

subsection \<open>The matches that a scan reports\<close>

lemma prev_after_rev: "prev_after None (rev rpre) = (case rpre of [] \<Rightarrow> None | c # _ \<Rightarrow> Some c)"
  by (cases rpre) (simp_all add: prev_after_eq)

lemma exec_at_Some:
  assumes "exec_at re rpre s = Some (m, caps, s')"
  shows "s = m @ s' \<and> (\<exists>p'. (p', s', caps) \<in> set (rmatch re (prev_after None (rev rpre), s, [])))"
proof -
  from assms obtain p' tl where
    r: "rmatch re (case rpre of [] \<Rightarrow> None | c # _ \<Rightarrow> Some c, s, []) = (p', s', caps) # tl"
    and m: "m = take (length s - length s') s"
    by (auto simp: exec_at_def split: list.splits)
  then have mem: "(p', s', caps) \<in> set (rmatch re (case rpre of [] \<Rightarrow> None | c # _ \<Rightarrow> Some c, s, []))"
    by simp
  from rmatch_suffix[OF mem] obtain w where "s = w @ s'" by blast
  with m have "s = m @ s'" by simp
  with mem show ?thesis unfolding prev_after_rev by blast
qed



section \<open>The renderer writes only its own tags\<close>

subsection \<open>The invariant\<close>

lemma trun_append: "trun q (a @ b) = (case trun q a of None \<Rightarrow> None | Some q' \<Rightarrow> trun q' b)"
  by (induction a arbitrary: q) (auto split: option.splits)

lemma tstep_break: "\<not> tag_letter c \<Longrightarrow> tstep q c \<noteq> None \<Longrightarrow> q = InText"
  by (cases q) (auto simp: tag_letter_def split: if_splits)

lemma tstep_text: "c \<noteq> CHR ''<'' \<Longrightarrow> tstep q c = Some q' \<Longrightarrow> q' \<noteq> AfterLt"
  by (cases q) (auto split: if_splits)

lemma tstep_not_s: "\<not> tag_letter c \<Longrightarrow> c \<noteq> CHR ''<'' \<Longrightarrow> tstep q c = Some q' \<Longrightarrow> q' = InText"
  by (cases q) (auto simp: tag_letter_def split: if_splits)

lemma ok_Nil [simp]: "ok []"
  by (simp add: ok_def)

lemma ok_append: "ok a \<Longrightarrow> ok b \<Longrightarrow> ok (a @ b)"
  by (simp add: ok_def trun_append)

lemma ok_append_left: "ok a \<Longrightarrow> ok (a @ b) = ok b"
  by (simp add: ok_def trun_append)

text \<open>A string can be cut before a character that cannot continue a tag start.\<close>

lemma ok_cut_before:
  assumes "trun InText (a @ c # b) \<noteq> None" and "\<not> tag_letter c"
  shows "ok a"
proof -
  from assms(1) obtain q where q: "trun InText a = Some q" and "trun q (c # b) \<noteq> None"
    by (auto simp: trun_append split: option.splits)
  then have "tstep q c \<noteq> None" by (auto split: option.splits)
  from tstep_break[OF assms(2) this] q show ?thesis by (simp add: ok_def)
qed

text \<open>... and after such a character, unless it is \<open><\<close>.\<close>

lemma ok_cut_after:
  assumes "trun InText (a @ [c]) \<noteq> None" and "\<not> tag_letter c" and "c \<noteq> CHR ''<''"
  shows "ok (a @ [c])"
proof -
  from assms(1) obtain q q' where q: "trun InText a = Some q" and s: "tstep q c = Some q'"
    by (auto simp: trun_append split: option.splits)
  from tstep_not_s[OF assms(2,3) s] q s show ?thesis by (simp add: ok_def trun_append)
qed

lemma ok_no_lt: "CHR ''<'' \<notin> set s \<Longrightarrow> ok s"
proof -
  have "CHR ''<'' \<notin> set s \<Longrightarrow> trun InText s = Some InText"
    by (induction s) auto
  then show "CHR ''<'' \<notin> set s \<Longrightarrow> ok s" by (simp add: ok_def)
qed

lemma trun_script: "trun q (''<sc'' @ s) = None"
  by (cases q) (auto split: option.splits)

lemma trun_None_append: "trun q a = None \<Longrightarrow> trun q (a @ b) = None"
  by (simp add: trun_append)

lemma ok_no_script: "ok s \<Longrightarrow> \<not> sublist ''<script>'' s"
proof
  assume ok: "ok s" and "sublist ''<script>'' s"
  then obtain a b where s: "s = a @ ''<script>'' @ b" unfolding sublist_def by blast
  have "trun InText s = None"
  proof (cases "trun InText a")
    case None
    then show ?thesis unfolding s by (rule trun_None_append)
  next
    case (Some q)
    have "trun q (''<sc'' @ (''ript>'' @ b)) = None" by (rule trun_script)
    with Some show ?thesis unfolding s by (simp add: trun_append)
  qed
  with ok show False by (simp add: ok_def)
qed

subsection \<open>A replacement keeps the invariant\<close>

lemma trun_ok_append: "ok a \<Longrightarrow> trun InText (a @ b) = trun InText b"
  by (simp add: ok_def trun_append)

lemma scan_keeps_state:
  "(\<And>m caps pre post p'. pre @ m @ post = whole \<Longrightarrow>
      (p', post, caps) \<in> set (rmatch re (prev_after None pre, m @ post, [])) \<Longrightarrow>
      ok pre \<and> ok m \<and> ok (f m caps pre post)) \<Longrightarrow>
   rev rpre @ s = whole \<Longrightarrow> trun InText (rev rpre) = Some q \<Longrightarrow> trun q s = Some InText \<Longrightarrow>
   trun q (concat (map (\<lambda>p. case p of Keep c \<Rightarrow> [c] | Hit m caps pre post \<Rightarrow> f m caps pre post)
                      (scan re rpre s))) = Some InText"
proof (induction re rpre s arbitrary: q rule: scan.induct)
  case (1 re rpre s)
  note hit = "1.prems"(1)
  note pr = "1.prems"(2-4)
  let ?out = "\<lambda>ps. concat (map (\<lambda>p. case p of Keep c \<Rightarrow> [c] | Hit m caps pre post \<Rightarrow> f m caps pre post) ps)"
  have keep: "trun q (x # ?out (scan re (x # rpre) xs)) = Some InText"
    if s: "s = x # xs" and ih: "\<And>q. rev (x # rpre) @ xs = whole \<Longrightarrow> trun InText (rev (x # rpre)) = Some q \<Longrightarrow>
        trun q xs = Some InText \<Longrightarrow> trun q (?out (scan re (x # rpre) xs)) = Some InText"
    for x xs
  proof -
    from pr(3) s obtain q' where q': "tstep q x = Some q'" "trun q' xs = Some InText"
      by (auto split: option.splits)
    have "trun InText (rev (x # rpre)) = Some q'"
      using pr(2) q'(1) by (simp add: trun_append)
    from ih[OF _ this q'(2)] pr(1) s q'(1) show ?thesis by simp
  qed
  show ?case
  proof (cases "exec_at re rpre s")
    case None
    show ?thesis
    proof (cases s)
      case Nil
      with None pr show ?thesis by (subst scan.simps) simp
    next
      case (Cons x xs)
      have "trun q (x # ?out (scan re (x # rpre) xs)) = Some InText"
        by (rule keep[OF Cons]) (rule "1.IH"(1)[OF None Cons hit])
      with None Cons show ?thesis by (subst scan.simps) simp
    qed
  next
    case (Some a)
    then obtain m caps s' where a: "a = (m, caps, s')" by (cases a) auto
    from exec_at_Some[OF Some[unfolded a]] obtain p' where s: "s = m @ s'"
      and mem: "(p', s', caps) \<in> set (rmatch re (prev_after None (rev rpre), m @ s', []))"
      by auto
    from pr(1) s have w: "rev rpre @ m @ s' = whole" by simp
    from hit[OF w mem] have okp: "ok (rev rpre)" and okm: "ok m" and okr: "ok (f m caps (rev rpre) s')"
      by auto
    from okp pr(2) have q: "q = InText" by (simp add: ok_def)
    from pr(3) s okm q have tail: "trun InText s' = Some InText"
      by (simp add: trun_ok_append)
    show ?thesis
    proof (cases "m = []")
      case True
      show ?thesis
      proof (cases s)
        case Nil
        with Some a True okr q show ?thesis by (subst scan.simps) (simp add: ok_def)
      next
        case (Cons x xs)
        have "trun q (x # ?out (scan re (x # rpre) xs)) = Some InText"
          by (rule keep[OF Cons]) (rule "1.IH"(2)[OF Some a[symmetric] refl True Cons hit])
        with Some a True Cons okr q show ?thesis
          by (subst scan.simps) (simp add: trun_ok_append)
      qed
    next
      case False
      have "trun InText (rev (rev m @ rpre)) = Some InText"
        using okp okm by (simp add: ok_def trun_append)
      from "1.IH"(3)[OF Some a[symmetric] refl False hit _ this tail] w
      have "trun InText (?out (scan re (rev m @ rpre) s')) = Some InText" by simp
      with Some a False okr q show ?thesis
        by (subst scan.simps) (simp add: trun_ok_append)
    qed
  qed
qed

theorem ok_js_replace:
  assumes "ok s"
    and "\<And>m caps pre post p'. pre @ m @ post = s \<Longrightarrow>
      (p', post, caps) \<in> set (rmatch re (prev_after None pre, m @ post, [])) \<Longrightarrow>
      ok pre \<and> ok m \<and> ok (expand (ngroups re) tmpl m caps pre post)"
  shows "ok (js_replace re tmpl s)"
  unfolding js_replace_def ok_def
  by (rule scan_keeps_state[where whole = s and f = "expand (ngroups re) tmpl"])
     (use assms in \<open>simp_all add: ok_def\<close>)

subsection \<open>Rewriting the invariant\<close>

lemma ok_Cons_text: "c \<noteq> CHR ''<'' \<Longrightarrow> ok (c # b) = ok b"
  by (simp add: ok_def)

lemma ok_Cons_lt:
  "ok (CHR ''<'' # x # b) =
     (if x = CHR ''s'' then (case b of [] \<Rightarrow> False | y # b' \<Rightarrow> y \<in> set ''tpv'' \<and> ok b')
      else x \<in> set ''/abcdehiloprtu'' \<and> ok b)"
  by (auto simp: ok_def split: list.splits)

lemma ok_lt_end: "ok [CHR ''<''] = False"
  by (simp add: ok_def)

lemma ok_append_break: "\<not> tag_letter c \<Longrightarrow> ok (a @ c # b) = (ok a \<and> ok (c # b))"
proof
  assume c: "\<not> tag_letter c" and o: "ok (a @ c # b)"
  then have "trun InText (a @ c # b) \<noteq> None" by (simp add: ok_def)
  from ok_cut_before[OF this c] have "ok a" .
  with o show "ok a \<and> ok (c # b)" by (simp add: ok_append_left)
next
  assume "ok a \<and> ok (c # b)"
  then show "ok (a @ c # b)" by (simp add: ok_append)
qed

lemmas ok_simps = ok_Cons_text ok_Cons_lt ok_lt_end ok_append_break tag_letter_def

lemma ok_spaces: "\<forall>x\<in>set ws. is_space x \<Longrightarrow> ok (ws @ b) = ok b"
proof -
  assume a: "\<forall>x\<in>set ws. is_space x"
  have "\<not> is_space CHR ''<''" by (simp add: is_space_def)
  with a have "CHR ''<'' \<notin> set ws" by blast
  from ok_no_lt[OF this] show ?thesis by (rule ok_append_left)
qed

lemma ok_line_end:
  "post = [] \<or> (\<exists>x xs. post = x # xs \<and> is_line_term x) \<Longrightarrow> ok (g @ post) = (ok g \<and> ok post)"
proof (elim disjE exE conjE)
  fix x xs assume p: "post = x # xs" and "is_line_term x"
  then have "x = CHR 0x0A \<or> x = CHR 0x0D" by (simp add: is_line_term_def)
  then have "\<not> tag_letter x" by (auto simp: tag_letter_def)
  then show ?thesis unfolding p by (rule ok_append_break)
qed simp

subsection \<open>Replacement strings\<close>

lemma expand_plain: "x \<noteq> CHR ''$'' \<Longrightarrow> expand k (x # y # t) m caps pre post = x # expand k (y # t) m caps pre post"
  by simp

lemmas expand_steps = expand.simps(3)

declare expand.simps(3) [simp del]

lemma expand_no_dollar: "CHR ''$'' \<notin> set tmpl \<Longrightarrow> expand k tmpl m caps pre post = tmpl"
proof (induction tmpl rule: induct_list012)
  case (3 x y zs)
  then have "x \<noteq> CHR ''$''" by auto
  with 3 show ?case by (simp add: expand_plain)
qed simp_all

subsection \<open>The span rules\<close>

lemma bold_shape:
  "(p', s', c') \<in> set (rmatch re_bold (p, s, [])) \<Longrightarrow>
     \<exists>g. s = ''**'' @ g @ ''**'' @ s' \<and> c' = [(1, g)]"
  unfolding re_bold_def seqs.simps in_rmatch in_rmatch_cls
  by (elim exE conjE) simp

lemma italic_star_shape:
  "(p', s', c') \<in> set (rmatch re_italic_star (p, s, [])) \<Longrightarrow>
     \<exists>g. s = ''*'' @ g @ ''*'' @ s' \<and> c' = [(1, g)]"
  unfolding re_italic_star_def seqs.simps in_rmatch in_rmatch_cls
  by (elim exE conjE) simp

lemma italic_underscore_shape:
  "(p', s', c') \<in> set (rmatch re_italic_underscore (p, s, [])) \<Longrightarrow>
     \<exists>g. s = ''_'' @ g @ ''_'' @ s' \<and> c' = [(1, g)]"
  unfolding re_italic_underscore_def seqs.simps in_rmatch in_rmatch_cls
  by (elim exE conjE) simp

lemma strike_shape:
  "(p', s', c') \<in> set (rmatch re_strike (p, s, [])) \<Longrightarrow>
     \<exists>g. s = ''~~'' @ g @ ''~~'' @ s' \<and> c' = [(1, g)]"
  unfolding re_strike_def seqs.simps in_rmatch in_rmatch_cls
  by (elim exE conjE) simp

lemma link_shape:
  "(p', s', c') \<in> set (rmatch re_link (p, s, [])) \<Longrightarrow>
     \<exists>g h. s = ''['' @ g @ '']('' @ h @ '')'' @ s' \<and> c' = [(2, h), (1, g)]"
  unfolding re_link_def seqs.simps in_rmatch in_rmatch_cls
  by (elim exE conjE) simp

lemma image_shape:
  "(p', s', c') \<in> set (rmatch re_image (p, s, [])) \<Longrightarrow>
     \<exists>g h. s = ''!['' @ g @ '']('' @ h @ '')'' @ s' \<and> c' = [(2, h), (1, g)]"
  unfolding re_image_def seqs.simps in_rmatch in_rmatch_cls
  by (elim exE conjE) simp

lemma ngroups_spans:
  "ngroups re_bold = 1" "ngroups re_italic_star = 1" "ngroups re_italic_underscore = 1"
  "ngroups re_strike = 1" "ngroups re_link = 2" "ngroups re_image = 2"
  by (simp_all add: re_bold_def re_italic_star_def re_italic_underscore_def re_strike_def
        re_link_def re_image_def PlusLazy_def Plus_def)

lemma expand_link:
  \<open>expand 2 link_tmpl m caps pre post =
     ''<a href="'' @ capture caps 2 @ ''" target="_blank" rel="noopener noreferrer">'' @ capture caps 1 @ ''</a>''\<close>
  by (simp add: link_tmpl_def is_digit_def digit_val_def numeral_2_eq_2 expand_steps)

lemma expand_image:
  \<open>expand 2 image_tmpl m caps pre post =
     ''<img src="'' @ capture caps 2 @ ''" alt="'' @ capture caps 1 @ ''" loading="lazy">''\<close>
  by (simp add: image_tmpl_def is_digit_def digit_val_def numeral_2_eq_2 expand_steps)

lemma ok_bold: "ok s \<Longrightarrow> ok (js_replace re_bold ''<strong>$1</strong>'' s)"
proof (rule ok_js_replace)
  fix m caps pre post p'
  assume s: "pre @ m @ post = s" and okS: "ok s"
    and mem: "(p', post, caps) \<in> set (rmatch re_bold (prev_after None pre, m @ post, []))"
  from bold_shape[OF mem] obtain g where m: "m = ''**'' @ g @ ''**''" and caps: "caps = [(1, g)]" by auto
  from okS s m have "ok (pre @ ''**'' @ g @ ''**'' @ post)" by simp
  then show "ok pre \<and> ok m \<and> ok (expand (ngroups re_bold) ''<strong>$1</strong>'' m caps pre post)"
    unfolding ngroups_spans caps m by (simp add: ok_simps capture_def is_digit_def digit_val_def expand_steps)
qed

lemma ok_italic_star: "ok s \<Longrightarrow> ok (js_replace re_italic_star ''<em>$1</em>'' s)"
proof (rule ok_js_replace)
  fix m caps pre post p'
  assume s: "pre @ m @ post = s" and okS: "ok s"
    and mem: "(p', post, caps) \<in> set (rmatch re_italic_star (prev_after None pre, m @ post, []))"
  from italic_star_shape[OF mem] obtain g where m: "m = ''*'' @ g @ ''*''" and caps: "caps = [(1, g)]" by auto
  from okS s m have "ok (pre @ ''*'' @ g @ ''*'' @ post)" by simp
  then show "ok pre \<and> ok m \<and> ok (expand (ngroups re_italic_star) ''<em>$1</em>'' m caps pre post)"
    unfolding ngroups_spans caps m by (simp add: ok_simps capture_def is_digit_def digit_val_def expand_steps)
qed

lemma ok_italic_underscore: "ok s \<Longrightarrow> ok (js_replace re_italic_underscore ''<em>$1</em>'' s)"
proof (rule ok_js_replace)
  fix m caps pre post p'
  assume s: "pre @ m @ post = s" and okS: "ok s"
    and mem: "(p', post, caps) \<in> set (rmatch re_italic_underscore (prev_after None pre, m @ post, []))"
  from italic_underscore_shape[OF mem] obtain g where m: "m = ''_'' @ g @ ''_''" and caps: "caps = [(1, g)]" by auto
  from okS s m have "ok (pre @ ''_'' @ g @ ''_'' @ post)" by simp
  then show "ok pre \<and> ok m \<and> ok (expand (ngroups re_italic_underscore) ''<em>$1</em>'' m caps pre post)"
    unfolding ngroups_spans caps m by (simp add: ok_simps capture_def is_digit_def digit_val_def expand_steps)
qed

lemma ok_strike: "ok s \<Longrightarrow> ok (js_replace re_strike ''<del>$1</del>'' s)"
proof (rule ok_js_replace)
  fix m caps pre post p'
  assume s: "pre @ m @ post = s" and okS: "ok s"
    and mem: "(p', post, caps) \<in> set (rmatch re_strike (prev_after None pre, m @ post, []))"
  from strike_shape[OF mem] obtain g where m: "m = ''~~'' @ g @ ''~~''" and caps: "caps = [(1, g)]" by auto
  from okS s m have "ok (pre @ ''~~'' @ g @ ''~~'' @ post)" by simp
  then show "ok pre \<and> ok m \<and> ok (expand (ngroups re_strike) ''<del>$1</del>'' m caps pre post)"
    unfolding ngroups_spans caps m by (simp add: ok_simps capture_def is_digit_def digit_val_def expand_steps)
qed

lemma ok_link: "ok s \<Longrightarrow> ok (js_replace re_link link_tmpl s)"
proof (rule ok_js_replace)
  fix m caps pre post p'
  assume s: "pre @ m @ post = s" and okS: "ok s"
    and mem: "(p', post, caps) \<in> set (rmatch re_link (prev_after None pre, m @ post, []))"
  from link_shape[OF mem] obtain g h where m: "m = ''['' @ g @ '']('' @ h @ '')''"
    and caps: "caps = [(2, h), (1, g)]" by auto
  from okS s m have "ok (pre @ ''['' @ g @ '']('' @ h @ '')'' @ post)" by simp
  then show "ok pre \<and> ok m \<and> ok (expand (ngroups re_link) link_tmpl m caps pre post)"
    unfolding ngroups_spans expand_link caps m by (simp add: ok_simps capture_def)
qed

lemma ok_image: "ok s \<Longrightarrow> ok (js_replace re_image image_tmpl s)"
proof (rule ok_js_replace)
  fix m caps pre post p'
  assume s: "pre @ m @ post = s" and okS: "ok s"
    and mem: "(p', post, caps) \<in> set (rmatch re_image (prev_after None pre, m @ post, []))"
  from image_shape[OF mem] obtain g h where m: "m = ''!['' @ g @ '']('' @ h @ '')''"
    and caps: "caps = [(2, h), (1, g)]" by auto
  from okS s m have "ok (pre @ ''!['' @ g @ '']('' @ h @ '')'' @ post)" by simp
  then show "ok pre \<and> ok m \<and> ok (expand (ngroups re_image) image_tmpl m caps pre post)"
    unfolding ngroups_spans expand_image caps m by (simp add: ok_simps capture_def)
qed

lemma ok_format_spans: "ok s \<Longrightarrow> ok (format_spans s)"
  unfolding format_spans_def
  by (intro ok_image ok_link ok_strike ok_italic_underscore ok_italic_star ok_bold)

subsection \<open>Matches between two characters that cannot continue a tag start\<close>

lemma ok_hit_ends:
  assumes "ok (pre @ m @ post)" and "m \<noteq> []" and "\<not> tag_letter (hd m)"
    and "\<not> tag_letter (last m)" and "last m \<noteq> CHR ''<''"
  shows "ok pre \<and> ok m \<and> ok post"
proof -
  from assms(2) obtain c m' where m: "m = c # m'" by (cases m) auto
  from assms(2) obtain m'' d where m2: "m = m'' @ [d]" by (cases m rule: rev_cases) auto
  from assms(1,3) m have 1: "ok pre" and 2: "ok (m @ post)"
    by (simp_all add: ok_append_break)
  from 2 have "trun InText m \<noteq> None" by (auto simp: ok_def trun_append split: option.splits)
  with m2 assms(4,5) have 3: "ok m" by (auto intro: ok_cut_after)
  from 2 3 have "ok post" by (simp add: ok_append_left)
  with 1 3 show ?thesis by simp
qed

lemma ok_const_rule:
  assumes shape: "\<And>p s p' s' c'. (p', s', c') \<in> set (rmatch re (p, s, [])) \<Longrightarrow>
      \<exists>m. s = m @ s' \<and> m \<noteq> [] \<and> \<not> tag_letter (hd m) \<and> \<not> tag_letter (last m) \<and> last m \<noteq> CHR ''<''"
    and tm: "CHR ''$'' \<notin> set tmpl" and r: "ok tmpl" and s: "ok s"
  shows "ok (js_replace re tmpl s)"
proof (rule ok_js_replace[OF s])
  fix m caps pre post p'
  assume w: "pre @ m @ post = s"
    and mem: "(p', post, caps) \<in> set (rmatch re (prev_after None pre, m @ post, []))"
  from shape[OF mem] have "m \<noteq> [] \<and> \<not> tag_letter (hd m) \<and> \<not> tag_letter (last m) \<and> last m \<noteq> CHR ''<''"
    by auto
  with ok_hit_ends[of pre m post] s w have "ok pre \<and> ok m" by simp
  then show "ok pre \<and> ok m \<and> ok (expand (ngroups re) tmpl m caps pre post)"
    by (simp add: expand_no_dollar[OF tm] r)
qed

text \<open>A line rule: a prefix without \<open><\<close>, then the rest of the line as group 1.\<close>

lemma ok_line_rule:
  assumes shape: "\<And>p s p' s' c'. (p', s', c') \<in> set (rmatch re (p, s, [])) \<Longrightarrow>
      \<exists>d g. s = d @ g @ s' \<and> d \<noteq> [] \<and> \<not> tag_letter (hd d) \<and> CHR ''<'' \<notin> set d \<and> c' = [(1, g)]
        \<and> (s' = [] \<or> (\<exists>x xs. s' = x # xs \<and> is_line_term x))"
    and tm: "\<And>m caps pre post. expand (ngroups re) tmpl m caps pre post = a @ capture caps 1 @ b"
    and a: "ok a" and b: "ok b" and s: "ok s"
  shows "ok (js_replace re tmpl s)"
proof (rule ok_js_replace[OF s])
  fix m caps pre post p'
  assume w: "pre @ m @ post = s"
    and mem: "(p', post, caps) \<in> set (rmatch re (prev_after None pre, m @ post, []))"
  from shape[OF mem] obtain d g where m: "m = d @ g" and d: "d \<noteq> []" "\<not> tag_letter (hd d)" "CHR ''<'' \<notin> set d"
    and caps: "caps = [(1, g)]" and e: "post = [] \<or> (\<exists>x xs. post = x # xs \<and> is_line_term x)"
    by auto
  from d(1) obtain c d' where dc: "d = c # d'" by (cases d) auto
  from s w m have "ok (pre @ d @ g @ post)" by simp
  with dc d(2) have 1: "ok pre" and 2: "ok (d @ g @ post)" by (simp_all add: ok_append_break)
  from 2 ok_no_lt[OF d(3)] have "ok (g @ post)" by (simp add: ok_append_left)
  with e have 3: "ok g" by (simp add: ok_line_end)
  from 3 ok_no_lt[OF d(3)] have "ok m" unfolding m by (rule ok_append[rotated])
  with 1 3 show "ok pre \<and> ok m \<and> ok (expand (ngroups re) tmpl m caps pre post)"
    by (simp add: tm caps capture_def ok_append a b)
qed

subsection \<open>Stars in general\<close>

lemma rmatch_Star_induct:
  assumes "st' \<in> set (rmatch (Star g a) st)" and "P st"
    and "\<And>x y. P x \<Longrightarrow> y \<in> set (rmatch a x) \<Longrightarrow> P y"
  shows "P st'"
  using assms(1,2)
proof (induction "length (fst (snd st))" arbitrary: st rule: less_induct)
  case less
  obtain p s c where st: "st = (p, s, c)" by (cases st) auto
  from less.prems(1) have "st' = (p, s, c) \<or>
     (\<exists>p1 s1 c1. (p1, s1, c1) \<in> set (rmatch a (p, s, c)) \<and> length s1 < length s \<and>
        st' \<in> set (rmatch (Star g a) (p1, s1, c1)))"
    unfolding st by (subst (asm) in_rmatch_Star) simp
  then show ?case
  proof (elim disjE exE conjE)
    assume "st' = (p, s, c)"
    with less.prems(2) st show ?thesis by simp
  next
    fix p1 s1 c1
    assume a: "(p1, s1, c1) \<in> set (rmatch a (p, s, c))" and l: "length s1 < length s"
      and r: "st' \<in> set (rmatch (Star g a) (p1, s1, c1))"
    from assms(3)[OF less.prems(2)[unfolded st] a] have "P (p1, s1, c1)" .
    from less.hyps[OF _ r this] l st show ?thesis by simp
  qed
qed

lemma in_rmatch_Star_Lit1:
  assumes "(p', s', c') \<in> set (rmatch (Star g (Lit [x])) (p, s, c))"
  shows "\<exists>w. s = w @ s' \<and> set w \<subseteq> {x} \<and> c' = c"
proof -
  have "case (p', s', c') of (p1, s1, c1) \<Rightarrow> \<exists>w. s = w @ s1 \<and> set w \<subseteq> {x} \<and> c1 = c"
  proof (rule rmatch_Star_induct[OF assms])
    show "case (p, s, c) of (p1, s1, c1) \<Rightarrow> \<exists>w. s = w @ s1 \<and> set w \<subseteq> {x} \<and> c1 = c"
      by simp
  next
    fix a b
    assume P: "case a of (p1, s1, c1) \<Rightarrow> \<exists>w. s = w @ s1 \<and> set w \<subseteq> {x} \<and> c1 = c"
      and b: "b \<in> set (rmatch (Lit [x]) a)"
    obtain p1 s1 c1 where a: "a = (p1, s1, c1)" by (cases a) auto
    obtain p2 s2 c2 where b2: "b = (p2, s2, c2)" by (cases b) auto
    from P a obtain w where w: "s = w @ s1" "set w \<subseteq> {x}" "c1 = c" by auto
    from b[unfolded a b2 in_rmatch_Lit] have "s1 = [x] @ s2" "c2 = c1" by simp_all
    with w have "s = (w @ [x]) @ s2 \<and> set (w @ [x]) \<subseteq> {x} \<and> c2 = c" by simp
    then show "case b of (p1, s1, c1) \<Rightarrow> \<exists>w. s = w @ s1 \<and> set w \<subseteq> {x} \<and> c1 = c"
      unfolding b2 by blast
  qed
  then show ?thesis by simp
qed

lemma three_or_more_shape:
  assumes "(p', s', c') \<in> set (rmatch (three_or_more x) (p, s, c))"
  shows "\<exists>w. s = w @ s' \<and> w \<noteq> [] \<and> set w \<subseteq> {x} \<and> c' = c"
proof -
  from assms obtain p1 s1 c1 where 1: "(p1, s1, c1) \<in> set (rmatch (Lit [x, x, x]) (p, s, c))"
    and 2: "(p', s', c') \<in> set (rmatch (Star True (Lit [x])) (p1, s1, c1))"
    unfolding three_or_more_def in_rmatch_Seq3 by blast
  from 1 have s: "s = [x, x, x] @ s1" "c1 = c" unfolding in_rmatch_Lit by auto
  from in_rmatch_Star_Lit1[OF 2] obtain w where "s1 = w @ s'" "set w \<subseteq> {x}" "c' = c1" by blast
  with s have "s = ([x, x, x] @ w) @ s' \<and> [x, x, x] @ w \<noteq> [] \<and> set ([x, x, x] @ w) \<subseteq> {x} \<and> c' = c"
    by simp
  then show ?thesis by blast
qed

subsection \<open>The block rules\<close>

lemma header_shape:
  assumes "(p', s', c') \<in> set (rmatch (re_header n) (p, s, []))"
  shows "\<exists>ws g. s = (replicate n CHR ''#'' @ ws) @ g @ s' \<and> (\<forall>x\<in>set ws. is_space x) \<and> c' = [(1, g)]
           \<and> (s' = [] \<or> (\<exists>x xs. s' = x # xs \<and> is_line_term x))"
  using assms unfolding re_header_def seqs.simps in_rmatch in_rmatch_cls
  by (elim exE conjE) auto

lemma in_rmatch_Opt_Cls_iff:
  "(p', s', c') \<in> set (rmatch (Opt (Cls f)) (p, s, c)) \<longleftrightarrow>
     (\<exists>w. s = w @ s' \<and> length w \<le> 1 \<and> (\<forall>x\<in>set w. f x) \<and> c' = c \<and> p' = prev_after p w)"
  unfolding in_rmatch_Opt in_rmatch_Cls
  apply (rule iffI)
   apply (elim disjE exE conjE)
  subgoal for x by (intro exI[of _ "[x]"]) simp
  subgoal by (intro exI[of _ "[]"]) simp
  apply (elim exE conjE)
  subgoal for w by (cases w) auto
  done

lemma blockquote_shape:
  assumes "(p', s', c') \<in> set (rmatch re_blockquote (p, s, []))"
  shows "\<exists>ws g. s = (''&gt;'' @ ws) @ g @ s' \<and> (\<forall>x\<in>set ws. is_space x) \<and> c' = [(1, g)]
           \<and> (s' = [] \<or> (\<exists>x xs. s' = x # xs \<and> is_line_term x))"
  using assms unfolding re_blockquote_def seqs.simps in_rmatch_Opt_Cls_iff in_rmatch in_rmatch_cls
  by (elim exE conjE) auto

lemma ul_item_shape:
  assumes "(p', s', c') \<in> set (rmatch re_ul_item (p, s, []))"
  shows "\<exists>x ws g. s = (x # ws) @ g @ s' \<and> x \<in> set ''-+*'' \<and> (\<forall>x\<in>set ws. is_space x) \<and> c' = [(1, g)]
           \<and> (s' = [] \<or> (\<exists>x xs. s' = x # xs \<and> is_line_term x))"
  using assms unfolding re_ul_item_def seqs.simps in_rmatch in_rmatch_cls one_of_def
  by (elim exE conjE) auto

lemma ol_item_shape:
  assumes "(p', s', c') \<in> set (rmatch re_ol_item (p, s, []))"
  shows "\<exists>ds ws g. s = (ds @ ''.'' @ ws) @ g @ s' \<and> ds \<noteq> [] \<and> (\<forall>x\<in>set ds. is_digit x)
           \<and> (\<forall>x\<in>set ws. is_space x) \<and> c' = [(1, g)]
           \<and> (s' = [] \<or> (\<exists>x xs. s' = x # xs \<and> is_line_term x))"
  using assms unfolding re_ol_item_def seqs.simps in_rmatch in_rmatch_cls
  by (elim exE conjE) auto

lemma ngroups_blocks:
  "ngroups (re_header n) = 1" "ngroups re_hr = 1" "ngroups re_blockquote = 1"
  "ngroups re_ul_item = 1" "ngroups re_ol_item = 1"
  by (simp_all add: re_header_def re_hr_def re_blockquote_def re_ul_item_def re_ol_item_def
        three_or_more_def Plus_def)

lemma header_tmpl_digit:
  "n < 10 \<Longrightarrow> header_tmpl n = ''<h'' @ [digit_char n] @ ''>$1</h'' @ [digit_char n] @ ''>''"
  unfolding header_tmpl_def by (subst show_nat.simps, subst show_nat.simps) simp

lemma expand_header:
  "c \<noteq> CHR ''$'' \<Longrightarrow>
   expand 1 (''<h'' @ [c] @ ''>$1</h'' @ [c] @ ''>'') m caps pre post =
     (''<h'' @ [c] @ ''>'') @ capture caps 1 @ (''</h'' @ [c] @ ''>'')"
  by (simp add: expand_steps is_digit_def digit_val_def)

lemma digit_char_plain: "n < 10 \<Longrightarrow> digit_char n \<noteq> CHR ''$'' \<and> digit_char n \<noteq> CHR ''<''"
proof -
  assume "n < 10"
  from is_digit_digit_char[OF this] show ?thesis by (auto simp: is_digit_def)
qed

lemma ok_header:
  assumes n: "0 < n" "n < 10" and s: "ok s"
  shows "ok (js_replace (re_header n) (header_tmpl n) s)"
proof (rule ok_line_rule[where a = "''<h'' @ [digit_char n] @ ''>''" and b = "''</h'' @ [digit_char n] @ ''>''", OF _ _ _ _ s])
  fix p s p' s' c'
  assume "(p', s', c') \<in> set (rmatch (re_header n) (p, s, []))"
  from header_shape[OF this] obtain ws g where
    1: "s = (replicate n CHR ''#'' @ ws) @ g @ s'" "\<forall>x\<in>set ws. is_space x" "c' = [(1, g)]"
      "s' = [] \<or> (\<exists>x xs. s' = x # xs \<and> is_line_term x)" by blast
  from n(1) obtain k where k: "n = Suc k" by (cases n) auto
  have "\<not> is_space CHR ''<''" by (simp add: is_space_def)
  with 1(2) have "CHR ''<'' \<notin> set ws" by blast
  then have "replicate n CHR ''#'' @ ws \<noteq> [] \<and> \<not> tag_letter (hd (replicate n CHR ''#'' @ ws))
      \<and> CHR ''<'' \<notin> set (replicate n CHR ''#'' @ ws)"
    unfolding k by (simp add: tag_letter_def)
  with 1 show "\<exists>d g. s = d @ g @ s' \<and> d \<noteq> [] \<and> \<not> tag_letter (hd d) \<and> CHR ''<'' \<notin> set d \<and> c' = [(1, g)]
        \<and> (s' = [] \<or> (\<exists>x xs. s' = x # xs \<and> is_line_term x))"
    by blast
next
  fix m caps pre post
  show "expand (ngroups (re_header n)) (header_tmpl n) m caps pre post =
          (''<h'' @ [digit_char n] @ ''>'') @ capture caps 1 @ (''</h'' @ [digit_char n] @ ''>'')"
    unfolding ngroups_blocks header_tmpl_digit[OF n(2)]
    using digit_char_plain[OF n(2)] by (intro expand_header) simp
next
  show "ok (''<h'' @ [digit_char n] @ ''>'')"
    using digit_char_plain[OF n(2)] by (simp add: ok_simps)
next
  show "ok (''</h'' @ [digit_char n] @ ''>'')"
    using digit_char_plain[OF n(2)] by (simp add: ok_simps)
qed

lemma ok_blockquote:
  assumes s: "ok s"
  shows "ok (js_replace re_blockquote ''<blockquote>$1</blockquote>'' s)"
proof (rule ok_line_rule[where a = "''<blockquote>''" and b = "''</blockquote>''", OF _ _ _ _ s])
  fix p s p' s' c'
  assume "(p', s', c') \<in> set (rmatch re_blockquote (p, s, []))"
  from blockquote_shape[OF this] obtain ws g where
    1: "s = (''&gt;'' @ ws) @ g @ s'" "\<forall>x\<in>set ws. is_space x" "c' = [(1, g)]"
      "s' = [] \<or> (\<exists>x xs. s' = x # xs \<and> is_line_term x)" by blast
  have "\<not> is_space CHR ''<''" by (simp add: is_space_def)
  with 1(2) have "CHR ''<'' \<notin> set ws" by blast
  then have "''&gt;'' @ ws \<noteq> [] \<and> \<not> tag_letter (hd (''&gt;'' @ ws)) \<and> CHR ''<'' \<notin> set (''&gt;'' @ ws)"
    by (simp add: tag_letter_def)
  with 1 show "\<exists>d g. s = d @ g @ s' \<and> d \<noteq> [] \<and> \<not> tag_letter (hd d) \<and> CHR ''<'' \<notin> set d \<and> c' = [(1, g)]
        \<and> (s' = [] \<or> (\<exists>x xs. s' = x # xs \<and> is_line_term x))"
    by blast
next
  fix m caps pre post
  show "expand (ngroups re_blockquote) ''<blockquote>$1</blockquote>'' m caps pre post =
          ''<blockquote>'' @ capture caps 1 @ ''</blockquote>''"
    unfolding ngroups_blocks by (simp add: expand_steps is_digit_def digit_val_def)
qed (simp_all add: ok_simps)

lemma ok_ul_item:
  assumes s: "ok s"
  shows "ok (js_replace re_ul_item ''<li>$1</li>'' s)"
proof (rule ok_line_rule[where a = "''<li>''" and b = "''</li>''", OF _ _ _ _ s])
  fix p s p' s' c'
  assume "(p', s', c') \<in> set (rmatch re_ul_item (p, s, []))"
  from ul_item_shape[OF this] obtain x ws g where
    1: "s = (x # ws) @ g @ s'" "x \<in> set ''-+*''" "\<forall>x\<in>set ws. is_space x" "c' = [(1, g)]"
      "s' = [] \<or> (\<exists>x xs. s' = x # xs \<and> is_line_term x)" by blast
  have "\<not> is_space CHR ''<''" by (simp add: is_space_def)
  with 1(3) have "CHR ''<'' \<notin> set ws" by blast
  with 1(2) have "x # ws \<noteq> [] \<and> \<not> tag_letter (hd (x # ws)) \<and> CHR ''<'' \<notin> set (x # ws)"
    by (auto simp: tag_letter_def)
  with 1 show "\<exists>d g. s = d @ g @ s' \<and> d \<noteq> [] \<and> \<not> tag_letter (hd d) \<and> CHR ''<'' \<notin> set d \<and> c' = [(1, g)]
        \<and> (s' = [] \<or> (\<exists>x xs. s' = x # xs \<and> is_line_term x))"
    by blast
next
  fix m caps pre post
  show "expand (ngroups re_ul_item) ''<li>$1</li>'' m caps pre post = ''<li>'' @ capture caps 1 @ ''</li>''"
    unfolding ngroups_blocks by (simp add: expand_steps is_digit_def digit_val_def)
qed (simp_all add: ok_simps)

lemma digit_plain: "is_digit x \<Longrightarrow> \<not> tag_letter x \<and> x \<noteq> CHR ''<''"
  by (auto simp: is_digit_def tag_letter_def)

lemma ok_ol_item:
  assumes s: "ok s"
  shows "ok (js_replace re_ol_item ''<li>$1</li>'' s)"
proof (rule ok_line_rule[where a = "''<li>''" and b = "''</li>''", OF _ _ _ _ s])
  fix p s p' s' c'
  assume "(p', s', c') \<in> set (rmatch re_ol_item (p, s, []))"
  from ol_item_shape[OF this] obtain ds ws g where
    1: "s = (ds @ ''.'' @ ws) @ g @ s'" "ds \<noteq> []" "\<forall>x\<in>set ds. is_digit x" "\<forall>x\<in>set ws. is_space x"
      "c' = [(1, g)]" "s' = [] \<or> (\<exists>x xs. s' = x # xs \<and> is_line_term x)" by blast
  have "\<not> is_space CHR ''<''" by (simp add: is_space_def)
  with 1(4) have ws: "CHR ''<'' \<notin> set ws" by blast
  from 1(3) digit_plain have ds: "CHR ''<'' \<notin> set ds" by blast
  from 1(2) obtain d ds' where dd: "ds = d # ds'" by (cases ds) auto
  with 1(3) digit_plain have "\<not> tag_letter d" by auto
  with dd ws ds have "ds @ ''.'' @ ws \<noteq> [] \<and> \<not> tag_letter (hd (ds @ ''.'' @ ws))
      \<and> CHR ''<'' \<notin> set (ds @ ''.'' @ ws)"
    by simp
  with 1 show "\<exists>d g. s = d @ g @ s' \<and> d \<noteq> [] \<and> \<not> tag_letter (hd d) \<and> CHR ''<'' \<notin> set d \<and> c' = [(1, g)]
        \<and> (s' = [] \<or> (\<exists>x xs. s' = x # xs \<and> is_line_term x))"
    by blast
next
  fix m caps pre post
  show "expand (ngroups re_ol_item) ''<li>$1</li>'' m caps pre post = ''<li>'' @ capture caps 1 @ ''</li>''"
    unfolding ngroups_blocks by (simp add: expand_steps is_digit_def digit_val_def)
qed (simp_all add: ok_simps)

subsection \<open>Horizontal rules\<close>

lemma hr_shape:
  assumes "(p', s', c') \<in> set (rmatch re_hr (p, s, []))"
  shows "\<exists>m. s = m @ s' \<and> m \<noteq> [] \<and> (\<forall>x\<in>set m. is_space x \<or> x \<in> set ''-*_'')"
proof -
  from assms obtain p1 s1 c1 p2 s2 c2 p3 s3 c3 where
    a: "(p1, s1, c1) \<in> set (rmatch (Star True (Cls is_space)) (p, s, []))"
    and b: "(p2, s2, c2) \<in> set (rmatch (Alt (three_or_more CHR ''-'')
                   (Alt (three_or_more CHR ''*'') (three_or_more CHR ''_''))) (p1, s1, c1))"
    and c: "(p3, s3, c3) \<in> set (rmatch (Star True (Cls is_space)) (p2, s2, (1, take (length s1 - length s2) s1) # c2))"
    and d: "s' = s3"
    unfolding re_hr_def seqs.simps in_rmatch_Seq3 in_rmatch_Bol in_rmatch_Eol in_rmatch_Grp
    by (elim exE conjE) auto
  from a obtain w1 where w1: "s = w1 @ s1" "\<forall>x\<in>set w1. is_space x"
    unfolding in_rmatch_Star_Cls_iff by blast
  from b obtain x where x: "x \<in> set ''-*_''" "(p2, s2, c2) \<in> set (rmatch (three_or_more x) (p1, s1, c1))"
    unfolding in_rmatch_Alt by auto
  from three_or_more_shape[OF x(2)] obtain w2 where w2: "s1 = w2 @ s2" "w2 \<noteq> []" "set w2 \<subseteq> {x}"
    by blast
  from c obtain w3 where w3: "s2 = w3 @ s3" "\<forall>x\<in>set w3. is_space x"
    unfolding in_rmatch_Star_Cls_iff by blast
  from w2(3) x(1) have "\<forall>y\<in>set w2. y \<in> set ''-*_''" by blast
  with w1 w2 w3 d have "s = (w1 @ w2 @ w3) @ s' \<and> w1 @ w2 @ w3 \<noteq> [] \<and>
      (\<forall>x\<in>set (w1 @ w2 @ w3). is_space x \<or> x \<in> set ''-*_'')"
    by auto
  then show ?thesis by blast
qed

lemma plain_char: "is_space x \<or> x \<in> set ''-*_'' \<Longrightarrow> \<not> tag_letter x \<and> x \<noteq> CHR ''<''"
  by (auto simp: is_space_def tag_letter_def)

lemma ok_hr: "ok s \<Longrightarrow> ok (js_replace re_hr ''<hr>'' s)"
proof (rule ok_const_rule)
  fix p s p' s' c'
  assume "(p', s', c') \<in> set (rmatch re_hr (p, s, []))"
  from hr_shape[OF this] obtain m where m: "s = m @ s'" "m \<noteq> []" "\<forall>x\<in>set m. is_space x \<or> x \<in> set ''-*_''"
    by blast
  from m(2) have "hd m \<in> set m" "last m \<in> set m" by simp_all
  with m(3) plain_char have "\<not> tag_letter (hd m) \<and> \<not> tag_letter (last m) \<and> last m \<noteq> CHR ''<''"
    by blast
  with m show "\<exists>m. s = m @ s' \<and> m \<noteq> [] \<and> \<not> tag_letter (hd m) \<and> \<not> tag_letter (last m) \<and> last m \<noteq> CHR ''<''"
    by blast
qed (simp_all add: ok_simps)

subsection \<open>Replacement by a callback without a side table\<close>

lemma run_pieces_unit:
  "fst (run_pieces f ps (u::unit)) =
     concat (map (\<lambda>p. case p of Keep c \<Rightarrow> [c] | Hit m caps pre post \<Rightarrow> fst (f m caps ())) ps)"
proof (induction ps)
  case Nil
  show ?case by simp
next
  case (Cons a ps)
  then show ?case by (cases a) (auto split: prod.splits)
qed

theorem ok_js_replace_fn_unit:
  assumes "ok s"
    and "\<And>m caps pre post p'. pre @ m @ post = s \<Longrightarrow>
      (p', post, caps) \<in> set (rmatch re (prev_after None pre, m @ post, [])) \<Longrightarrow>
      ok pre \<and> ok m \<and> ok (fst (f m caps ()))"
  shows "ok (fst (js_replace_fn re f s ()))"
  unfolding js_replace_fn_def run_pieces_unit ok_def
  by (rule scan_keeps_state[where whole = s and f = "\<lambda>m caps pre post. fst (f m caps ())"])
     (use assms in \<open>simp_all add: ok_def\<close>)

subsection \<open>Runs of list items\<close>

lemma li_item_shape:
  assumes "(p', s', c') \<in> set (rmatch (Grp 1 (seqs [Lit ''<li>'', Star True (Cls dot), Lit ''</li>'',
      Opt (Lit ''\<newline>'')])) (p, s, c))"
  shows "\<exists>w. s = w @ s' \<and> w \<noteq> [] \<and> hd w = CHR ''<'' \<and> last w \<in> set ''>\<newline>''"
proof -
  from assms obtain d s1 where 1: "s = ''<li>'' @ d @ ''</li>'' @ s1" and 2: "s1 = s' \<or> s1 = ''\<newline>'' @ s'"
    unfolding seqs.simps in_rmatch in_rmatch_cls by (elim exE conjE) auto
  from 2 show ?thesis
  proof
    assume "s1 = s'"
    with 1 have "s = (''<li>'' @ d @ ''</li>'') @ s' \<and> ''<li>'' @ d @ ''</li>'' \<noteq> []
      \<and> hd (''<li>'' @ d @ ''</li>'') = CHR ''<'' \<and> last (''<li>'' @ d @ ''</li>'') \<in> set ''>\<newline>''"
      by simp
    then show ?thesis by blast
  next
    assume "s1 = ''\<newline>'' @ s'"
    with 1 have "s = (''<li>'' @ d @ ''</li>\<newline>'') @ s' \<and> ''<li>'' @ d @ ''</li>\<newline>'' \<noteq> []
      \<and> hd (''<li>'' @ d @ ''</li>\<newline>'') = CHR ''<'' \<and> last (''<li>'' @ d @ ''</li>\<newline>'') \<in> set ''>\<newline>''"
      by simp
    then show ?thesis by blast
  qed
qed

lemma li_run_shape:
  assumes "(p', s', c') \<in> set (rmatch re_li_run (p, s, c))"
  shows "\<exists>w. s = w @ s' \<and> w \<noteq> [] \<and> hd w = CHR ''<'' \<and> last w \<in> set ''>\<newline>''"
proof -
  let ?item = "Grp 1 (seqs [Lit ''<li>'', Star True (Cls dot), Lit ''</li>'', Opt (Lit ''\<newline>'')])"
  let ?P = "\<lambda>st. case st of (p1, s1, c1) \<Rightarrow>
     \<exists>w. s = w @ s1 \<and> w \<noteq> [] \<and> hd w = CHR ''<'' \<and> last w \<in> set ''>\<newline>''"
  from assms obtain p1 s1 c1 where 1: "(p1, s1, c1) \<in> set (rmatch ?item (p, s, c))"
    and 2: "(p', s', c') \<in> set (rmatch (Star True ?item) (p1, s1, c1))"
    unfolding re_li_run_def Plus_def in_rmatch_Seq3 by blast
  have "?P (p', s', c')"
  proof (rule rmatch_Star_induct[OF 2])
    from li_item_shape[OF 1] show "?P (p1, s1, c1)" by simp
  next
    fix x y assume P: "?P x" and y: "y \<in> set (rmatch ?item x)"
    obtain p2 s2 c2 where x: "x = (p2, s2, c2)" by (cases x) auto
    obtain p3 s3 c3 where y3: "y = (p3, s3, c3)" by (cases y) auto
    from P x obtain w where w: "s = w @ s2" "w \<noteq> []" "hd w = CHR ''<''" by auto
    from li_item_shape[OF y[unfolded x y3]] obtain w2 where
      w2: "s2 = w2 @ s3" "w2 \<noteq> []" "last w2 \<in> set ''>\<newline>''" by blast
    from w w2 have "s = (w @ w2) @ s3 \<and> w @ w2 \<noteq> [] \<and> hd (w @ w2) = CHR ''<'' \<and> last (w @ w2) \<in> set ''>\<newline>''"
      by simp
    then show "?P y" unfolding y3 by blast
  qed
  then show ?thesis by simp
qed

lemma ok_li_run: "ok s \<Longrightarrow> ok (fst (js_replace_fn re_li_run li_run_cb s ()))"
proof (rule ok_js_replace_fn_unit)
  fix m caps pre post p'
  assume s: "ok s" and w: "pre @ m @ post = s"
    and mem: "(p', post, caps) \<in> set (rmatch re_li_run (prev_after None pre, m @ post, []))"
  from li_run_shape[OF mem] have m: "m \<noteq> []" "hd m = CHR ''<''" "last m \<in> set ''>\<newline>''" by auto
  then have "\<not> tag_letter (hd m) \<and> \<not> tag_letter (last m) \<and> last m \<noteq> CHR ''<''"
    by (auto simp: tag_letter_def)
  with ok_hit_ends[of pre m post] s w m(1) have "ok pre \<and> ok m" by simp
  then show "ok pre \<and> ok m \<and> ok (fst (li_run_cb m caps ()))"
    by (simp add: li_run_cb_def ok_simps ok_append)
qed

lemma ok_format_blocks: "ok s \<Longrightarrow> ok (format_blocks s)"
  unfolding format_blocks_def
  by (intro ok_li_run ok_ol_item ok_ul_item ok_blockquote ok_hr ok_header) simp_all

subsection \<open>Paragraphs\<close>

lemma ok_Lit_rule:
  assumes "w \<noteq> []" "\<not> tag_letter (hd w)" "\<not> tag_letter (last w)" "last w \<noteq> CHR ''<''"
    and "CHR ''$'' \<notin> set tmpl" "ok tmpl" "ok s"
  shows "ok (js_replace (Lit w) tmpl s)"
proof (rule ok_const_rule[OF _ assms(5,6,7)])
  fix p s p' s' c'
  assume "(p', s', c') \<in> set (rmatch (Lit w) (p, s, []))"
  then have "s = w @ s'" unfolding in_rmatch_Lit by simp
  with assms(1-4) show "\<exists>m. s = m @ s' \<and> m \<noteq> [] \<and> \<not> tag_letter (hd m) \<and> \<not> tag_letter (last m) \<and> last m \<noteq> CHR ''<''"
    by blast
qed

lemma double_p_shape:
  assumes "(p', s', c') \<in> set (rmatch re_double_p (p, s, []))"
  shows "\<exists>ws. s = (''</p><p>'' @ ws @ ''<p>'') @ s'"
  using assms unfolding re_double_p_def seqs.simps in_rmatch in_rmatch_cls
  by (elim exE conjE) auto

lemma empty_p_shape:
  assumes "(p', s', c') \<in> set (rmatch re_empty_p (p, s, []))"
  shows "\<exists>ws. s = (''<p>'' @ ws @ ''</p>'') @ s'"
  using assms unfolding re_empty_p_def seqs.simps in_rmatch in_rmatch_cls
  by (elim exE conjE) auto

lemma ok_double_p: "ok s \<Longrightarrow> ok (js_replace re_double_p ''</p><p>'' s)"
proof (rule ok_const_rule)
  fix p s p' s' c'
  assume "(p', s', c') \<in> set (rmatch re_double_p (p, s, []))"
  from double_p_shape[OF this] obtain ws where "s = (''</p><p>'' @ ws @ ''<p>'') @ s'" by blast
  moreover have "''</p><p>'' @ ws @ ''<p>'' \<noteq> [] \<and> \<not> tag_letter (hd (''</p><p>'' @ ws @ ''<p>''))
      \<and> \<not> tag_letter (last (''</p><p>'' @ ws @ ''<p>'')) \<and> last (''</p><p>'' @ ws @ ''<p>'') \<noteq> CHR ''<''"
    by (simp add: tag_letter_def)
  ultimately show "\<exists>m. s = m @ s' \<and> m \<noteq> [] \<and> \<not> tag_letter (hd m) \<and> \<not> tag_letter (last m) \<and> last m \<noteq> CHR ''<''"
    by blast
qed (simp_all add: ok_simps)

lemma ok_empty_p: "ok s \<Longrightarrow> ok (js_replace re_empty_p [] s)"
proof (rule ok_const_rule)
  fix p s p' s' c'
  assume "(p', s', c') \<in> set (rmatch re_empty_p (p, s, []))"
  from empty_p_shape[OF this] obtain ws where "s = (''<p>'' @ ws @ ''</p>'') @ s'" by blast
  moreover have "''<p>'' @ ws @ ''</p>'' \<noteq> [] \<and> \<not> tag_letter (hd (''<p>'' @ ws @ ''</p>''))
      \<and> \<not> tag_letter (last (''<p>'' @ ws @ ''</p>'')) \<and> last (''<p>'' @ ws @ ''</p>'') \<noteq> CHR ''<''"
    by (simp add: tag_letter_def)
  ultimately show "\<exists>m. s = m @ s' \<and> m \<noteq> [] \<and> \<not> tag_letter (hd m) \<and> \<not> tag_letter (last m) \<and> last m \<noteq> CHR ''<''"
    by blast
qed simp_all

lemma ok_wrap_p: "ok s \<Longrightarrow> ok (''<p>'' @ s @ ''</p>'')"
  by (intro ok_append) (simp_all add: ok_simps)

lemma ok_paragraphs: "ok s \<Longrightarrow> ok (paragraphs s)"
  unfolding paragraphs_def
  by (intro ok_empty_p ok_double_p ok_wrap_p ok_Lit_rule) (simp_all add: ok_simps)

subsection \<open>Cleanup around block elements\<close>

lemma in_rmatch_Opt_Lit_iff:
  "(p', s', c') \<in> set (rmatch (Opt (Lit w)) (p, s, c)) \<longleftrightarrow>
     (\<exists>v. s = v @ s' \<and> (v = w \<or> v = []) \<and> c' = c \<and> p' = prev_after p v)"
  unfolding in_rmatch_Opt in_rmatch_Lit by auto

lemma block_name_shape:
  assumes "(p', s', c') \<in> set (rmatch (alts (map Lit block_names @ rs)) (p, s, c))"
    and rs: "rs = [re_h16, Lit ''hr'', Lit ''pre''] \<or> rs = [re_h16, Lit ''pre'']"
  shows "\<exists>g. s = g @ s' \<and> c' = c \<and>
           (g \<in> set [''div'', ''table'', ''ul'', ''ol'', ''blockquote'', ''hr'', ''pre'']
            \<or> (\<exists>x. g = [CHR ''h'', x] \<and> x \<in> set ''123456''))"
  using rs
proof
  assume "rs = [re_h16, Lit ''hr'', Lit ''pre'']"
  with assms(1) show ?thesis
    unfolding alts_def block_names_def re_h16_def
    by (simp del: rmatch_basic add: in_rmatch one_of_def) (elim disjE exE conjE; simp)
next
  assume "rs = [re_h16, Lit ''pre'']"
  with assms(1) show ?thesis
    unfolding alts_def block_names_def re_h16_def
    by (simp del: rmatch_basic add: in_rmatch one_of_def) (elim disjE exE conjE; simp)
qed

lemma br_before_block_shape:
  assumes "(p', s', c') \<in> set (rmatch re_br_before_block (p, s, []))"
  shows "\<exists>nl g. s = (''<br>'' @ nl @ ''<'' @ g) @ s' \<and> (nl = ''\<newline>'' \<or> nl = []) \<and> c' = [(1, g)] \<and>
           (g \<in> set [''div'', ''table'', ''ul'', ''ol'', ''blockquote'', ''hr'', ''pre'']
            \<or> (\<exists>x. g = [CHR ''h'', x] \<and> x \<in> set ''123456''))"
proof -
  from assms obtain nl p1 s1 c1 where 1: "s = ''<br>'' @ nl @ ''<'' @ s1" "nl = ''\<newline>'' \<or> nl = []"
    and 2: "(p', s', c') \<in> set (rmatch (Grp 1 (alts (map Lit block_names @ [re_h16, Lit ''hr'', Lit ''pre'']))) (p1, s1, []))"
    unfolding re_br_before_block_def seqs.simps in_rmatch_Seq3 in_rmatch_Lit in_rmatch_Opt_Lit_iff
    by (elim exE conjE) auto
  from 2 obtain c2 where 3: "(p', s', c2) \<in> set (rmatch (alts (map Lit block_names @ [re_h16, Lit ''hr'', Lit ''pre''])) (p1, s1, []))"
    and 4: "c' = (1, take (length s1 - length s') s1) # c2"
    unfolding in_rmatch_Grp by blast
  from block_name_shape[OF 3] obtain g where g: "s1 = g @ s'" "c2 = []"
    "g \<in> set [''div'', ''table'', ''ul'', ''ol'', ''blockquote'', ''hr'', ''pre'']
            \<or> (\<exists>x. g = [CHR ''h'', x] \<and> x \<in> set ''123456'')" by blast
  from 1 4 g have "s = (''<br>'' @ nl @ ''<'' @ g) @ s' \<and> (nl = ''\<newline>'' \<or> nl = []) \<and> c' = [(1, g)]"
    by simp
  with g(3) show ?thesis by blast
qed

lemma br_after_block_shape:
  assumes "(p', s', c') \<in> set (rmatch re_br_after_block (p, s, []))"
  shows "\<exists>g. s = (''</'' @ g @ ''><br>'') @ s' \<and> c' = [(1, g)] \<and>
           (g \<in> set [''div'', ''table'', ''ul'', ''ol'', ''blockquote'', ''hr'', ''pre'']
            \<or> (\<exists>x. g = [CHR ''h'', x] \<and> x \<in> set ''123456''))"
proof -
  from assms obtain p1 s1 p2 s2 c2 where 1: "s = ''</'' @ s1"
    and 2: "(p2, s2, c2) \<in> set (rmatch (Grp 1 (alts (map Lit block_names @ [re_h16, Lit ''pre'']))) (p1, s1, []))"
    and 5: "s2 = ''><br>'' @ s'" "c' = c2"
    unfolding re_br_after_block_def seqs.simps in_rmatch_Seq3 in_rmatch_Lit
    by (elim exE conjE) auto
  from 2 obtain c3 where 3: "(p2, s2, c3) \<in> set (rmatch (alts (map Lit block_names @ [re_h16, Lit ''pre''])) (p1, s1, []))"
    and 4: "c2 = (1, take (length s1 - length s2) s1) # c3"
    unfolding in_rmatch_Grp by blast
  from block_name_shape[OF 3] obtain g where g: "s1 = g @ s2" "c3 = []"
    "g \<in> set [''div'', ''table'', ''ul'', ''ol'', ''blockquote'', ''hr'', ''pre'']
            \<or> (\<exists>x. g = [CHR ''h'', x] \<and> x \<in> set ''123456'')" by blast
  from 1 4 5 g have "s = (''</'' @ g @ ''><br>'') @ s' \<and> c' = [(1, g)]"
    by simp
  with g(3) show ?thesis by blast
qed

lemma ok_block_name:
  assumes "g \<in> set [''div'', ''table'', ''ul'', ''ol'', ''blockquote'', ''hr'', ''pre'']
            \<or> (\<exists>x. g = [CHR ''h'', x] \<and> x \<in> set ''123456'')"
  shows "ok (''<'' @ g) \<and> ok (''</'' @ g @ ''>'') \<and> ok (''<br><'' @ g) \<and> ok (''<br>\<newline><'' @ g)"
proof -
  have lit: "ok (''<'' @ g) \<and> ok (''</'' @ g @ ''>'') \<and> ok (''<br><'' @ g) \<and> ok (''<br>\<newline><'' @ g)"
    if "g \<in> set [''div'', ''table'', ''ul'', ''ol'', ''blockquote'', ''hr'', ''pre'']"
  proof -
    from that have "g = ''div'' \<or> g = ''table'' \<or> g = ''ul'' \<or> g = ''ol''
      \<or> g = ''blockquote'' \<or> g = ''hr'' \<or> g = ''pre''" by simp
    then show ?thesis
      by (elim disjE) (simp_all add: ok_Cons_text ok_Cons_lt)
  qed
  have hx: "ok (''<'' @ g) \<and> ok (''</'' @ g @ ''>'') \<and> ok (''<br><'' @ g) \<and> ok (''<br>\<newline><'' @ g)"
    if "g = [CHR ''h'', x]" "x \<in> set ''123456''" for x
  proof -
    from that(2) have "x \<noteq> CHR ''<''" by auto
    with that(1) show ?thesis by (simp add: ok_Cons_text ok_Cons_lt)
  qed
  from assms show ?thesis
  proof (elim disjE exE conjE)
    assume "g \<in> set [''div'', ''table'', ''ul'', ''ol'', ''blockquote'', ''hr'', ''pre'']"
    then show ?thesis by (rule lit)
  next
    fix x assume "g = [CHR ''h'', x]" "x \<in> set ''123456''"
    then show ?thesis by (rule hx)
  qed
qed

lemma ngroups_cleanup: "ngroups re_br_before_block = 1" "ngroups re_br_after_block = 1"
  by (simp_all add: re_br_before_block_def re_br_after_block_def alts_def block_names_def re_h16_def)

lemma ok_br_before_block: "ok s \<Longrightarrow> ok (js_replace re_br_before_block ''<$1'' s)"
proof (rule ok_js_replace)
  fix m caps pre post p'
  assume s: "ok s" and w: "pre @ m @ post = s"
    and mem: "(p', post, caps) \<in> set (rmatch re_br_before_block (prev_after None pre, m @ post, []))"
  from br_before_block_shape[OF mem] obtain nl g where m0: "m @ post = (''<br>'' @ nl @ ''<'' @ g) @ post"
    and nl: "nl = ''\<newline>'' \<or> nl = []" and caps: "caps = [(1, g)]"
    and g: "g \<in> set [''div'', ''table'', ''ul'', ''ol'', ''blockquote'', ''hr'', ''pre'']
            \<or> (\<exists>x. g = [CHR ''h'', x] \<and> x \<in> set ''123456'')" by blast
  from m0 have m: "m = ''<br>'' @ nl @ ''<'' @ g" by simp
  from s w m have "ok (pre @ CHR ''<'' # (''br>'' @ nl @ ''<'' @ g @ post))" by simp
  then have 1: "ok pre" by (simp add: ok_append_break tag_letter_def)
  from nl ok_block_name[OF g] have 2: "ok m" unfolding m by (elim disjE) simp_all
  have "expand 1 ''<$1'' m caps pre post = ''<'' @ g"
    unfolding caps by (simp add: expand_steps is_digit_def digit_val_def capture_def)
  with 1 2 ok_block_name[OF g] show "ok pre \<and> ok m \<and> ok (expand (ngroups re_br_before_block) ''<$1'' m caps pre post)"
    unfolding ngroups_cleanup by simp
qed

lemma ok_br_after_block: "ok s \<Longrightarrow> ok (js_replace re_br_after_block ''</$1>'' s)"
proof (rule ok_js_replace)
  fix m caps pre post p'
  assume s: "ok s" and w: "pre @ m @ post = s"
    and mem: "(p', post, caps) \<in> set (rmatch re_br_after_block (prev_after None pre, m @ post, []))"
  from br_after_block_shape[OF mem] obtain g where m0: "m @ post = (''</'' @ g @ ''><br>'') @ post"
    and caps: "caps = [(1, g)]"
    and g: "g \<in> set [''div'', ''table'', ''ul'', ''ol'', ''blockquote'', ''hr'', ''pre'']
            \<or> (\<exists>x. g = [CHR ''h'', x] \<and> x \<in> set ''123456'')" by blast
  from m0 have m: "m = ''</'' @ g @ ''><br>''" by simp
  have "m \<noteq> [] \<and> \<not> tag_letter (hd m) \<and> \<not> tag_letter (last m) \<and> last m \<noteq> CHR ''<''"
    unfolding m by (simp add: tag_letter_def)
  with ok_hit_ends[of pre m post] s w have 1: "ok pre \<and> ok m" by simp
  have "expand 1 ''</$1>'' m caps pre post = ''</'' @ g @ ''>''"
    unfolding caps by (simp add: expand_steps is_digit_def digit_val_def capture_def)
  with 1 ok_block_name[OF g] show "ok pre \<and> ok m \<and> ok (expand (ngroups re_br_after_block) ''</$1>'' m caps pre post)"
    unfolding ngroups_cleanup by simp
qed

lemma ok_cleanup: "ok s \<Longrightarrow> ok (cleanup s)"
  unfolding cleanup_def
  by (intro ok_Lit_rule ok_br_after_block ok_br_before_block) (simp_all add: ok_simps)

subsection \<open>The escape helper\<close>

lemma js_replace_char_aux:
  assumes r: "CHR ''$'' \<notin> set r"
  shows "concat (map (\<lambda>p. case p of Keep c \<Rightarrow> [c] | Hit m caps pre post \<Rightarrow> expand 0 r m caps pre post)
                     (scan (Lit [c]) rpre s)) = concat (map (\<lambda>x. if x = c then r else [x]) s)"
proof (induction s arbitrary: rpre)
  case Nil
  show ?case by (subst scan.simps) (simp add: exec_at_def)
next
  case (Cons x s)
  show ?case
  proof (cases "x = c")
    case True
    then show ?thesis
      by (subst scan.simps) (simp add: exec_at_def Cons.IH expand_no_dollar[OF r])
  next
    case False
    then show ?thesis
      by (subst scan.simps) (simp add: exec_at_def Cons.IH)
  qed
qed

lemma js_replace_char:
  "CHR ''$'' \<notin> set r \<Longrightarrow> js_replace (Lit [c]) r s = concat (map (\<lambda>x. if x = c then r else [x]) s)"
  unfolding js_replace_def by (simp add: js_replace_char_aux)

lemma escapeHtml_chars:
  \<open>escapeHtml s = concat (map (\<lambda>x. if x = CHR ''&'' then ''&amp;'' else if x = CHR ''<'' then ''&lt;''
      else if x = CHR ''>'' then ''&gt;'' else if x = CHR ''"'' then ''&quot;''
      else if x = CHR 0x27 then ''&#039;'' else [x]) s)\<close>
proof -
  have "escapeHtml s = js_replace (Lit [CHR 0x27]) ''&#039;''
            (js_replace (Lit [CHR 0x22]) ''&quot;''
              (js_replace (Lit ''>'') ''&gt;''
                (js_replace (Lit ''<'') ''&lt;''
                  (js_replace (Lit ''&'') ''&amp;'' s))))"
    by (cases "s = []") (simp_all add: escapeHtml_def js_replace_char)
  also have "\<dots> = concat (map (\<lambda>x. if x = CHR ''&'' then ''&amp;'' else if x = CHR ''<'' then ''&lt;''
      else if x = CHR ''>'' then ''&gt;'' else if x = CHR 0x22 then ''&quot;''
      else if x = CHR 0x27 then ''&#039;'' else [x]) s)"
    by (induction s) (simp_all add: js_replace_char)
  finally show ?thesis .
qed

lemma escapeHtml_no_lt: "CHR ''<'' \<notin> set (escapeHtml s)"
  unfolding escapeHtml_chars by (induction s) auto

lemma ok_escapeHtml: "ok (escapeHtml s)"
  by (rule ok_no_lt[OF escapeHtml_no_lt])

subsection \<open>Replacement text taken from a side table\<close>

text \<open>
  The restore steps pass rendered text as the replacement string, so its \<open>$\<close> patterns are
  expanded. The searched literal has no groups: only \<open>$$\<close>, \<open>$&\<close>, the text before and the text
  after the match can be substituted.
\<close>

lemma tstep_dollar: "tstep q CHR ''$'' = Some q' \<Longrightarrow> q = InText \<and> q' = InText"
  by (cases q) (auto simp: tag_letter_def split: if_splits)

lemma trun_InText_plain: "c \<noteq> CHR ''<'' \<Longrightarrow> trun InText (c # s) = trun InText s"
  by simp

lemma trun_expand0:
  assumes "ok m" "ok pre" "ok post"
  shows "trun q tmpl = Some q' \<Longrightarrow> trun q (expand 0 tmpl m caps pre post) = Some q'"
proof (induction tmpl arbitrary: q rule: length_induct)
  case (1 tmpl)
  note IH = "1.IH"[rule_format]
  show ?case
  proof (cases tmpl)
    case Nil
    with "1.prems" show ?thesis by simp
  next
    case (Cons x u)
    show ?thesis
    proof (cases u)
      case Nil
      with Cons "1.prems" show ?thesis by simp
    next
      case (Cons y t)
      note tm = \<open>tmpl = x # u\<close> Cons
      show ?thesis
      proof (cases "x = CHR ''$''")
        case False
        from "1.prems" obtain q1 where q1: "tstep q x = Some q1" and r: "trun q1 (y # t) = Some q'"
          unfolding tm by (auto split: option.splits)
        from IH[of "y # t" q1] r have "trun q1 (expand 0 (y # t) m caps pre post) = Some q'"
          by (simp add: tm)
        with q1 False show ?thesis unfolding tm by (simp add: expand_plain)
      next
        case True
        from "1.prems" True obtain q1 where q1: "tstep q CHR ''$'' = Some q1" and r0: "trun q1 (y # t) = Some q'"
          unfolding tm by (auto split: option.splits)
        from tstep_dollar[OF q1] have q: "q = InText" and q1': "q1 = InText" by simp_all
        from r0 have r: "trun InText (y # t) = Some q'" unfolding q1' .
        have yt: "trun InText (expand 0 (y # t) m caps pre post) = Some q'"
          using IH[of "y # t" InText] r by (simp add: tm)
        have ny: "y \<noteq> CHR ''<'' \<Longrightarrow> trun InText t = Some q'" using r by simp
        have t: "y \<noteq> CHR ''<'' \<Longrightarrow> trun InText (expand 0 t m caps pre post) = Some q'"
          using IH[of t InText] ny by (simp add: tm)
        have ins: "\<And>a. ok a \<Longrightarrow> y \<noteq> CHR ''<'' \<Longrightarrow> trun InText (a @ expand 0 t m caps pre post) = Some q'"
          using t by (simp add: trun_ok_append)
        consider (dollar) "y = CHR ''$''" | (amp) "y = CHR ''&''" | (tick) "y = CHR 0x60"
          | (quote) "y = CHR 0x27" | (digit) "y \<notin> set ''$&'' \<and> y \<noteq> CHR 0x60 \<and> y \<noteq> CHR 0x27 \<and> is_digit y"
          | (other) "y \<notin> set ''$&'' \<and> y \<noteq> CHR 0x60 \<and> y \<noteq> CHR 0x27 \<and> \<not> is_digit y"
          by auto
        then show ?thesis
        proof cases
          case dollar
          with t show ?thesis unfolding tm q True by (simp add: expand_steps)
        next
          case amp
          with ins[OF assms(1)] show ?thesis unfolding tm q True by (simp add: expand_steps)
        next
          case tick
          with ins[OF assms(2)] show ?thesis unfolding tm q True by (simp add: expand_steps)
        next
          case quote
          with ins[OF assms(3)] show ?thesis unfolding tm q True by (simp add: expand_steps)
        next
          case other
          with yt show ?thesis unfolding tm q True by (simp add: expand_steps)
        next
          case digit
          then have ylt: "y \<noteq> CHR ''<''" by (auto simp: is_digit_def)
          show ?thesis
          proof (cases t)
            case Nil
            with digit ylt r show ?thesis unfolding tm q True by (auto simp add: expand_steps)
          next
            case (Cons z t')
            show ?thesis
            proof (cases "is_digit z \<and> 10 * digit_val y + digit_val z = 0")
              case True
              then have zlt: "z \<noteq> CHR ''<''" by (auto simp: is_digit_def)
              from ny[OF ylt] zlt have "trun InText t' = Some q'" unfolding Cons by simp
              with IH[of t' InText] have "trun InText (expand 0 t' m caps pre post) = Some q'"
                by (simp add: tm Cons)
              with True digit ylt zlt show ?thesis unfolding tm q \<open>x = CHR ''$''\<close> Cons
                by (simp add: expand_steps)
            next
              case False
              with digit ylt t[OF ylt] show ?thesis unfolding tm q \<open>x = CHR ''$''\<close> Cons
                by (auto simp add: expand_steps)
            qed
          qed
        qed
      qed
    qed
  qed
qed

lemma ok_expand0: "ok tmpl \<Longrightarrow> ok m \<Longrightarrow> ok pre \<Longrightarrow> ok post \<Longrightarrow> ok (expand 0 tmpl m caps pre post)"
  unfolding ok_def using trun_expand0[unfolded ok_def] by blast

lemma ok_restore_step:
  assumes w: "w \<noteq> []" "\<not> tag_letter (hd w)" "\<not> tag_letter (last w)" "last w \<noteq> CHR ''<''"
    and r: "ok tmpl" and s: "ok s"
  shows "ok (js_replace (Lit w) tmpl s)"
proof (rule ok_js_replace[OF s])
  fix m caps pre post p'
  assume e: "pre @ m @ post = s"
    and mem: "(p', post, caps) \<in> set (rmatch (Lit w) (prev_after None pre, m @ post, []))"
  from mem have "m = w" unfolding in_rmatch_Lit by simp
  with ok_hit_ends[of pre m post] s e w have "ok pre \<and> ok m \<and> ok post" by simp
  then show "ok pre \<and> ok m \<and> ok (expand (ngroups (Lit w)) tmpl m caps pre post)"
    by (simp add: ok_expand0 r)
qed

lemma ok_restore_loop:
  assumes w: "\<And>i. ph i \<noteq> [] \<and> \<not> tag_letter (hd (ph i)) \<and> \<not> tag_letter (last (ph i)) \<and> last (ph i) \<noteq> CHR ''<''"
    and r: "\<And>i. i < n \<Longrightarrow> ok (tmpl i)"
  shows "ok html \<Longrightarrow> ok (foldl (\<lambda>h i. js_replace (Lit (ph i)) (tmpl i) h) html [0..<n])"
  using r
proof (induction n)
  case 0
  then show ?case by simp
next
  case (Suc n)
  then have "ok (foldl (\<lambda>h i. js_replace (Lit (ph i)) (tmpl i) h) html [0..<n])" by simp
  with w[of n] Suc.prems(2)[of n] show ?case by (simp add: ok_restore_step)
qed

lemma placeholder_ends:
  "codeblock_placeholder i \<noteq> [] \<and> \<not> tag_letter (hd (codeblock_placeholder i))
     \<and> \<not> tag_letter (last (codeblock_placeholder i)) \<and> last (codeblock_placeholder i) \<noteq> CHR ''<''"
  "inlinecode_placeholder i \<noteq> [] \<and> \<not> tag_letter (hd (inlinecode_placeholder i))
     \<and> \<not> tag_letter (last (inlinecode_placeholder i)) \<and> last (inlinecode_placeholder i) \<noteq> CHR ''<''"
  "table_placeholder i \<noteq> [] \<and> \<not> tag_letter (hd (table_placeholder i))
     \<and> \<not> tag_letter (last (table_placeholder i)) \<and> last (table_placeholder i) \<noteq> CHR ''<''"
  by (simp_all add: codeblock_placeholder_def inlinecode_placeholder_def table_placeholder_def tag_letter_def)

subsection \<open>Every extracted table has a separator row\<close>

lemma test_from_iff:
  "test_from re rpre s \<longleftrightarrow> (\<exists>u v. s = u @ v \<and> rmatch re (prev_after None (rev rpre @ u), v, []) \<noteq> [])"
proof (induction s arbitrary: rpre)
  case Nil
  show ?case by (simp add: exec_at_None_iff prev_after_rev[symmetric])
next
  case (Cons x s)
  have "(\<exists>u v. x # s = u @ v \<and> rmatch re (prev_after None (rev rpre @ u), v, []) \<noteq> []) \<longleftrightarrow>
        rmatch re (prev_after None (rev rpre), x # s, []) \<noteq> []
        \<or> (\<exists>u v. s = u @ v \<and> rmatch re (prev_after None (rev rpre @ x # u), v, []) \<noteq> [])"
    (is "?L \<longleftrightarrow> ?A \<or> ?B")
  proof
    assume ?L
    then obtain u v where e: "x # s = u @ v" and r: "rmatch re (prev_after None (rev rpre @ u), v, []) \<noteq> []"
      by blast
    show "?A \<or> ?B"
    proof (cases u)
      case Nil
      with e r show ?thesis by simp
    next
      case (Cons y u')
      with e r have "s = u' @ v \<and> rmatch re (prev_after None (rev rpre @ x # u'), v, []) \<noteq> []" by simp
      then show ?thesis by blast
    qed
  next
    assume "?A \<or> ?B"
    then show ?L
    proof
      assume ?A
      then have "x # s = [] @ (x # s) \<and> rmatch re (prev_after None (rev rpre @ []), x # s, []) \<noteq> []" by simp
      then show ?L by blast
    next
      assume ?B
      then obtain u v where "s = u @ v" "rmatch re (prev_after None (rev rpre @ x # u), v, []) \<noteq> []" by blast
      then have "x # s = (x # u) @ v \<and> rmatch re (prev_after None (rev rpre @ (x # u)), v, []) \<noteq> []" by simp
      then show ?L by blast
    qed
  qed
  then show ?case
    by (simp add: exec_at_None_iff prev_after_rev[symmetric] Cons.IH del: prev_after_append)
qed

lemma js_test_iff:
  "js_test re s \<longleftrightarrow> (\<exists>u v p' s' c'. s = u @ v \<and> (p', s', c') \<in> set (rmatch re (prev_after None u, v, [])))"
proof -
  have "\<And>xs :: (char option \<times> string \<times> (nat \<times> string) list) list. xs \<noteq> [] \<longleftrightarrow> (\<exists>p' s' c'. (p', s', c') \<in> set xs)"
    by (metis all_not_in_conv prod_cases3 set_empty)
  then show ?thesis unfolding js_test_def test_from_iff by simp
qed

lemma prev_after_None_iff: "prev_after None u = None \<longleftrightarrow> u = []"
  by (simp add: prev_after_eq)

lemma trim_edges: "trim l = [] \<or> (\<not> is_space (hd (trim l)) \<and> \<not> is_space (last (trim l)))"
proof (cases "trim l = []")
  case False
  define a where "a = dropWhile is_space (rev (dropWhile is_space l))"
  from False have a: "a \<noteq> []" by (simp add: trim_def a_def)
  then have h: "\<not> is_space (hd a)" unfolding a_def by (rule hd_dropWhile)
  have t: "trim l = rev a" by (simp add: trim_def a_def)
  from a h have 1: "\<not> is_space (last (trim l))" unfolding t by (simp add: last_rev)
  define d where "d = dropWhile is_space l"
  have "rev d = takeWhile is_space (rev d) @ a" by (simp add: a_def d_def)
  then have "rev (rev d) = rev (takeWhile is_space (rev d) @ a)" by simp
  then have dd: "d = rev a @ rev (takeWhile is_space (rev d))" by simp
  from a have "rev a @ rev (takeWhile is_space (rev d)) \<noteq> []" by simp
  with dd have "d \<noteq> []" by metis
  then have d: "dropWhile is_space l \<noteq> []" unfolding d_def .
  from a have "hd (rev a @ rev (takeWhile is_space (rev d))) = hd (rev a)" by simp
  with dd have "hd (trim l) = hd (dropWhile is_space l)" unfolding t d_def by simp
  with hd_dropWhile[OF d] have "\<not> is_space (hd (trim l))" by simp
  with 1 show ?thesis by simp
qed simp

lemma separator_loose_trimmed:
  assumes "js_test re_separator_loose (trim l)"
  shows "js_test re_separator (trim l)"
proof -
  define t where "t = trim l"
  from assms obtain u v p' s' c' where e: "t = u @ v"
    and mem: "(p', s', c') \<in> set (rmatch re_separator_loose (prev_after None u, v, []))"
    unfolding js_test_iff t_def by blast
  from mem obtain ws1 mid ws2 where u: "prev_after None u = None"
    and v: "v = ws1 @ ''|'' @ mid @ ''|'' @ ws2"
    and ws1: "\<forall>x\<in>set ws1. is_space x" and ws2: "\<forall>x\<in>set ws2. is_space x"
    and mid: "mid \<noteq> []" "\<forall>x\<in>set mid. is_space x \<or> x \<in> set ''-:|''"
    unfolding re_separator_loose_def seqs.simps in_rmatch in_rmatch_cls
    by (elim exE conjE bexE) auto
  from u have "u = []" by (simp add: prev_after_None_iff)
  with e v have t: "t = ws1 @ ''|'' @ mid @ ''|'' @ ws2" by simp
  then have "t \<noteq> []" by simp
  with trim_edges[of l] have edges: "\<not> is_space (hd t)" "\<not> is_space (last t)" by (simp_all add: t_def)
  have 1: "ws1 = []"
  proof (rule ccontr)
    assume "ws1 \<noteq> []"
    then have "hd t = hd ws1" "hd ws1 \<in> set ws1" unfolding t by simp_all
    with ws1 edges(1) show False by simp
  qed
  have 2: "ws2 = []"
  proof (rule ccontr)
    assume n: "ws2 \<noteq> []"
    then have "last t = last ws2" "last ws2 \<in> set ws2" unfolding t by simp_all
    with ws2 edges(2) show False by simp
  qed
  from t 1 2 have t': "t = ''|'' @ mid @ ''|''" by simp
  have "(Some CHR ''|'', [], []) \<in> set (rmatch re_separator (prev_after None [], t, []))"
    unfolding re_separator_def seqs.simps in_rmatch in_rmatch_cls t'
    using mid by (auto simp: prev_after_eq)
  then have "t = [] @ t \<and> (Some CHR ''|'', [], []) \<in> set (rmatch re_separator (prev_after None [], t, []))"
    by simp
  then show ?thesis unfolding js_test_iff t_def[symmetric] by blast
qed

lemma find_separator_Some:
  "list_ex (\<lambda>line. js_test re_separator_loose (trim line)) lines \<Longrightarrow> find_separator lines i \<noteq> None"
  by (induction lines arbitrary: i) (auto simp: separator_loose_trimmed)

subsection \<open>The rendered side tables\<close>

lemma ok_concat: "(\<And>x. x \<in> set xs \<Longrightarrow> ok x) \<Longrightarrow> ok (concat xs)"
  by (induction xs) (simp_all add: ok_append)

lemma ok_inline_code_html: "ok (inline_code_html (escapeHtml x))"
proof -
  have "ok (escapeHtml x @ ''</code>'')"
    by (rule ok_append[OF ok_escapeHtml]) (simp add: ok_simps)
  then show ?thesis unfolding inline_code_html_def by (simp add: ok_simps)
qed

lemma inlinecode_ref_shape:
  assumes "(p', s', c') \<in> set (rmatch re_inlinecode_ref (p, s, []))"
  shows "\<exists>ds. s = (''__INLINECODE_'' @ ds @ ''__'') @ s'"
  using assms unfolding re_inlinecode_ref_def seqs.simps in_rmatch in_rmatch_cls
  by (elim exE conjE) auto

lemma ok_inlinecode_ref:
  "ok s \<Longrightarrow> ok (fst (js_replace_fn re_inlinecode_ref (inlinecode_ref_cb inlineCodes) s ()))"
proof (rule ok_js_replace_fn_unit)
  fix m caps pre post p'
  assume s: "ok s" and w: "pre @ m @ post = s"
    and mem: "(p', post, caps) \<in> set (rmatch re_inlinecode_ref (prev_after None pre, m @ post, []))"
  from inlinecode_ref_shape[OF mem] obtain ds where "m @ post = (''__INLINECODE_'' @ ds @ ''__'') @ post"
    by blast
  then have m: "m = ''__INLINECODE_'' @ ds @ ''__''" by simp
  then have "m \<noteq> [] \<and> \<not> tag_letter (hd m) \<and> \<not> tag_letter (last m) \<and> last m \<noteq> CHR ''<''"
    by (simp add: tag_letter_def)
  with ok_hit_ends[of pre m post] s w have "ok pre \<and> ok m" by simp
  then show "ok pre \<and> ok m \<and> ok (fst (inlinecode_ref_cb inlineCodes m caps ()))"
    by (simp add: inlinecode_ref_cb_def Let_def ok_inline_code_html)
qed

lemma ok_parseInlineMarkdown: "ok text \<Longrightarrow> ok (parseInlineMarkdown text inlineCodes)"
  unfolding parseInlineMarkdown_def by (simp add: ok_format_spans ok_inlinecode_ref)

lemma alignment_cases: "alignment cell \<in> {''center'', ''right'', ''left''}"
  by (simp add: alignment_def Let_def)

lemma ok_render_cell:
  assumes tag: "tag = ''th'' \<or> tag = ''td''"
    and al: "\<And>a. a \<in> set alignments \<Longrightarrow> CHR ''<'' \<notin> set a"
  shows "ok (render_cell tag alignments inlineCodes ic)"
proof -
  obtain idx cell where ic: "ic = (idx, cell)" by (cases ic)
  define align where "align = (if idx < length alignments then alignments ! idx else ''left'')"
  define content where "content = parseInlineMarkdown (escapeHtml (trim cell)) inlineCodes"
  have a: "CHR ''<'' \<notin> set align" unfolding align_def using al by simp
  have c: "ok content" unfolding content_def by (rule ok_parseInlineMarkdown[OF ok_escapeHtml])
  have 1: "ok ('' style=\"text-align: '' @ align @ ''\">'')"
    by (rule ok_no_lt) (use a in simp)
  have 2: "ok (''</'' @ tag @ ''>'')" using tag by (auto simp: ok_simps)
  have 3: "ok (''<'' @ tag)" using tag by (auto simp: ok_simps)
  have "ok ((''<'' @ tag) @ ('' style=\"text-align: '' @ align @ ''\">'') @ content @ (''</'' @ tag @ ''>''))"
    by (intro ok_append 1 2 3 c)
  then show ?thesis unfolding render_cell_def ic align_def content_def by (simp add: Let_def)
qed

lemma ok_render_row:
  assumes "tag = ''th'' \<or> tag = ''td''" and "\<And>a. a \<in> set alignments \<Longrightarrow> CHR ''<'' \<notin> set a"
  shows "ok (render_row tag alignments inlineCodes row)"
proof -
  have "ok (concat (map (render_cell tag alignments inlineCodes) (enumerate 0 (row_cells row))))"
    by (rule ok_concat) (use ok_render_cell[OF assms] in auto)
  then have "ok (''<tr>'' @ concat (map (render_cell tag alignments inlineCodes) (enumerate 0 (row_cells row)))
       @ ''</tr>'')"
    by (intro ok_append) (simp_all add: ok_simps)
  then show ?thesis unfolding render_row_def .
qed

lemma ok_parseTable:
  assumes "find_separator lines 0 \<noteq> None"
  shows "ok (parseTable lines inlineCodes)"
proof (cases "length lines < 2")
  case True
  then show ?thesis by (simp add: parseTable_def)
next
  case False
  from assms obtain k where k: "find_separator lines 0 = Some k" by auto
  define alignments where
    "alignments = map alignment (filter (\<lambda>cell. trim cell \<noteq> []) (split_on CHR ''|'' (lines ! k)))"
  have al: "\<And>a. a \<in> set alignments \<Longrightarrow> CHR ''<'' \<notin> set a"
  proof -
    fix a assume "a \<in> set alignments"
    then obtain c where "a = alignment c" unfolding alignments_def by auto
    with alignment_cases[of c] show "CHR ''<'' \<notin> set a" by auto
  qed
  define hd_part where "hd_part = (if take k lines \<noteq> []
       then ''<thead>'' @ concat (map (render_row ''th'' alignments inlineCodes) (take k lines)) @ ''</thead>''
       else [])"
  define body_part where "body_part = (if drop (Suc k) lines \<noteq> []
       then ''<tbody>'' @ concat (map (\<lambda>row. if trim row = [] then []
                                            else render_row ''td'' alignments inlineCodes row)
                                  (drop (Suc k) lines)) @ ''</tbody>''
       else [])"
  have h: "ok (concat (map (render_row ''th'' alignments inlineCodes) (take k lines)))"
    by (rule ok_concat) (use ok_render_row[of "''th''" alignments] al in auto)
  have b: "ok (concat (map (\<lambda>row. if trim row = [] then []
                                 else render_row ''td'' alignments inlineCodes row) (drop (Suc k) lines)))"
    by (rule ok_concat) (use ok_render_row[of "''td''" alignments] al in auto)
  have 1: "ok hd_part" unfolding hd_part_def
    by (auto intro!: ok_append h simp: ok_simps)
  have 2: "ok body_part" unfolding body_part_def
    by (auto intro!: ok_append b simp: ok_simps)
  have "ok (''<div class=\"table-wrapper\"><table>'' @ hd_part @ body_part @ ''</table></div>'')"
    by (intro ok_append 1 2) (simp_all add: ok_simps)
  with False k show ?thesis
    unfolding parseTable_def hd_part_def body_part_def alignments_def by (simp add: Let_def)
qed

subsection \<open>Code blocks\<close>

lemma knownLanguages_no_lt: "\<forall>l\<in>set knownLanguages. CHR ''<'' \<notin> set l"
  by (simp add: knownLanguages_def)

lemma ok_code_html:
  assumes "CHR ''<'' \<notin> set (language block)"
  shows "ok (code_html block)"
proof -
  define langDisplay where "langDisplay = (if language block = ''plaintext'' then ''text'' else language block)"
  have 1: "ok (escapeHtml langDisplay)" by (rule ok_escapeHtml)
  have 2: "ok (escapeHtml (code block))" by (rule ok_escapeHtml)
  have 3: "ok (''language-'' @ language block)" by (rule ok_no_lt) (use assms in simp)
  show ?thesis unfolding code_html_def Let_def langDisplay_def[symmetric]
    by (intro ok_append 1 2 3) (simp_all add: ok_Cons_text ok_Cons_lt)
qed

subsection \<open>What the extraction steps put into the side tables\<close>

lemma run_pieces_inv:
  assumes "\<And>m caps tbl. Q tbl \<Longrightarrow> Q (snd (f m caps tbl))"
  shows "Q tbl \<Longrightarrow> Q (snd (run_pieces f ps tbl))"
proof (induction ps arbitrary: tbl)
  case Nil
  then show ?case by simp
next
  case (Cons a ps)
  show ?case
  proof (cases a)
    case (Keep c)
    with Cons show ?thesis by (simp split: prod.splits) (metis snd_conv)
  next
    case (Hit m caps pre post)
    from assms[OF Cons.prems, of m caps] have "Q (snd (f m caps tbl))" .
    from Cons.IH[OF this] Hit show ?thesis by (simp split: prod.splits) (metis snd_conv)
  qed
qed

lemma js_replace_fn_inv:
  "(\<And>m caps tbl. Q tbl \<Longrightarrow> Q (snd (f m caps tbl))) \<Longrightarrow> Q tbl \<Longrightarrow> Q (snd (js_replace_fn re f s tbl))"
  unfolding js_replace_fn_def by (rule run_pieces_inv)

lemma fence_lang_cb_inv: "plain_languages tbl \<Longrightarrow> plain_languages (snd (fence_lang_cb m caps tbl))"
  using knownLanguages_no_lt by (auto simp: fence_lang_cb_def plain_languages_def Let_def)

lemma fence_plain_cb_inv: "plain_languages tbl \<Longrightarrow> plain_languages (snd (fence_plain_cb m caps tbl))"
  by (auto simp: fence_plain_cb_def plain_languages_def Let_def)

lemma table_cb_inv:
  assumes "with_separator tbl"
  shows "with_separator (snd (table_cb m caps tbl))"
proof -
  define lines where "lines = filter (\<lambda>line. trim line \<noteq> []) (split_on CHR ''\<newline>'' (trim m))"
  show ?thesis
  proof (cases "length lines < 2 \<or> \<not> list_ex (\<lambda>line. js_test re_separator_loose (trim line)) lines")
    case True
    then have "snd (table_cb m caps tbl) = tbl"
      unfolding table_cb_def lines_def[symmetric] by (auto simp: Let_def)
    with assms show ?thesis by simp
  next
    case False
    then have s: "snd (table_cb m caps tbl) = tbl @ [lines]"
      unfolding table_cb_def lines_def[symmetric] by (auto simp: Let_def)
    from False have "find_separator lines 0 \<noteq> None" by (simp add: find_separator_Some)
    with assms show ?thesis unfolding s with_separator_def by auto
  qed
qed

lemma extract_regions_inv:
  assumes "extract_regions text = (residual, codeBlocks, inlineCodes, tables)"
  shows "plain_languages codeBlocks \<and> with_separator tables"
proof -
  obtain t1 cb1 where 1: "js_replace_fn re_fence_lang fence_lang_cb text [] = (t1, cb1)" by fastforce
  obtain t2 cb2 where 2: "js_replace_fn re_fence_plain fence_plain_cb t1 cb1 = (t2, cb2)" by fastforce
  obtain t3 ic1 where 3: "js_replace_fn re_inline1 inline1_cb t2 [] = (t3, ic1)" by fastforce
  obtain t4 tb where 4: "js_replace_fn re_table table_cb t3 [] = (t4, tb)" by fastforce
  from assms 1 2 3 4 have e: "codeBlocks = cb2" "tables = tb"
    by (auto simp: extract_regions_def split: prod.splits)
  have "plain_languages (snd (js_replace_fn re_fence_lang fence_lang_cb text []))"
    by (rule js_replace_fn_inv[where Q = plain_languages], rule fence_lang_cb_inv) (simp_all add: plain_languages_def)
  with 1 have "plain_languages cb1" by simp
  then have "plain_languages (snd (js_replace_fn re_fence_plain fence_plain_cb t1 cb1))"
    by (intro js_replace_fn_inv[where Q = plain_languages] fence_plain_cb_inv)
  with 2 have a: "plain_languages cb2" by simp
  have "with_separator (snd (js_replace_fn re_table table_cb t3 []))"
    by (rule js_replace_fn_inv[where Q = with_separator], rule table_cb_inv) (simp_all add: with_separator_def)
  with 4 have "with_separator tb" by simp
  with a e show ?thesis by simp
qed

subsection \<open>The restore steps and the whole renderer\<close>

lemma ok_restore_inline: "ok html \<Longrightarrow> ok (restore_inline inlineCodes html)"
  unfolding restore_inline_def
  by (rule ok_restore_loop[where ph = inlinecode_placeholder]) (simp_all add: placeholder_ends ok_inline_code_html)

lemma ok_restore_tables:
  assumes "with_separator tables" "ok html"
  shows "ok (restore_tables tables inlineCodes html)"
  unfolding restore_tables_def
proof (rule ok_restore_loop[where ph = table_placeholder])
  fix i assume "i < length tables"
  with assms(1) have "find_separator (tables ! i) 0 \<noteq> None" by (simp add: with_separator_def)
  then show "ok (parseTable (tables ! i) inlineCodes)" by (rule ok_parseTable)
qed (simp_all add: placeholder_ends assms)

lemma ok_restore_blocks:
  assumes "plain_languages codeBlocks" "ok html"
  shows "ok (restore_blocks codeBlocks html)"
  unfolding restore_blocks_def
proof (rule ok_restore_loop[where ph = codeblock_placeholder])
  fix i assume "i < length codeBlocks"
  with assms(1) have "CHR ''<'' \<notin> set (language (codeBlocks ! i))" by (simp add: plain_languages_def)
  then show "ok (code_html (codeBlocks ! i))" by (rule ok_code_html)
qed (simp_all add: placeholder_ends assms)

lemma ok_parseMarkdown: "ok (parseMarkdown text)"
proof (cases "text = []")
  case True
  then show ?thesis by (simp add: parseMarkdown_def)
next
  case False
  obtain residual codeBlocks inlineCodes tables where
    e: "extract_regions text = (residual, codeBlocks, inlineCodes, tables)" by (rule prod_cases4)
  from extract_regions_inv[OF e] have inv: "plain_languages codeBlocks" "with_separator tables" by simp_all
  have "ok (escapeHtml residual)" by (rule ok_escapeHtml)
  then have "ok (format_blocks (escapeHtml residual))" by (rule ok_format_blocks)
  then have "ok (format_spans (format_blocks (escapeHtml residual)))" by (rule ok_format_spans)
  then have "ok (paragraphs (format_spans (format_blocks (escapeHtml residual))))" by (rule ok_paragraphs)
  then have "ok (restore_inline inlineCodes (paragraphs (format_spans (format_blocks (escapeHtml residual)))))"
    by (rule ok_restore_inline)
  then have "ok (restore_tables tables inlineCodes
      (restore_inline inlineCodes (paragraphs (format_spans (format_blocks (escapeHtml residual))))))"
    by (rule ok_restore_tables[OF inv(2)])
  then have "ok (restore_blocks codeBlocks (restore_tables tables inlineCodes
      (restore_inline inlineCodes (paragraphs (format_spans (format_blocks (escapeHtml residual)))))))"
    by (rule ok_restore_blocks[OF inv(1)])
  then have "ok (cleanup (restore_blocks codeBlocks (restore_tables tables inlineCodes
      (restore_inline inlineCodes (paragraphs (format_spans (format_blocks (escapeHtml residual))))))))"
    by (rule ok_cleanup)
  with False e show ?thesis by (simp add: parseMarkdown_def)
qed

lemma parseMarkdown_no_script: "\<not> sublist ''<script>'' (parseMarkdown text)"
  by (rule ok_no_script[OF ok_parseMarkdown])

section \<open>No exception is raised\<close>














text \<open>The exceptions are there in the model: a callback that misses its group raises one.\<close>

lemma fence_lang_exn_raises: "fence_lang_exn m [(4, ''```'')] tbl = Inl TypeError"
  by (simp add: fence_lang_exn_def group_at_def)

lemma parseTable_exn_raises: "parseTable_exn None inlineCodes = Inl TypeError"
  by (simp add: parseTable_exn_def)

section \<open>Calls and their side tables\<close>

lemma extract_steps_fresh:
  "extract_steps text \<lparr>st_codeBlocks = [], st_inlineCodes = [], st_tables = []\<rparr> =
     (case extract_regions text of (residual, codeBlocks, inlineCodes, tables) \<Rightarrow>
        (residual, \<lparr>st_codeBlocks = codeBlocks, st_inlineCodes = inlineCodes, st_tables = tables\<rparr>))"
  by (simp add: extract_steps_def extract_regions_def split: prod.splits)

lemma render_steps_fresh:
  "text \<noteq> [] \<Longrightarrow>
   fst (render_steps text \<lparr>st_codeBlocks = [], st_inlineCodes = [], st_tables = []\<rparr>) = parseMarkdown text"
  by (simp add: render_steps_def extract_steps_fresh parseMarkdown_def split: prod.splits)

lemma parseMarkdown_call_output: "fst (parseMarkdown_call text st) = parseMarkdown text"
  by (cases "text = []") (simp_all add: parseMarkdown_call_def render_steps_fresh parseMarkdown_def)

text \<open>
  The steps after the declarations do read the tables they are given: on the inline-code
  table of an earlier call, the same text is rendered in another way.
\<close>

lemma render_steps_stale:
  \<open>fst (render_steps ''__INLINECODE_0__'' \<lparr>st_codeBlocks = [], st_inlineCodes = [''x''], st_tables = []\<rparr>)
     = ''<p><code class="inline-code">x</code></p>''\<close>
  by code_simp

lemma render_steps_empty:
  \<open>fst (render_steps ''__INLINECODE_0__'' \<lparr>st_codeBlocks = [], st_inlineCodes = [], st_tables = []\<rparr>)
     = ''<p>__INLINECODE_0__</p>''\<close>
  by code_simp

lemma parseMarkdown_call_leaves_tables:
  \<open>st_inlineCodes (snd (parseMarkdown_call ''`x`'' \<lparr>st_codeBlocks = [], st_inlineCodes = [], st_tables = []\<rparr>))
     = [''x'']\<close>
  by code_simp

section \<open>The sentinels issued by the extraction steps\<close>














section \<open>The claims\<close>

subsection \<open>The renderer on the inputs of the specification\<close>

lemma parseMarkdown_bold_italic:
  "parseMarkdown ''**bold *and italic* text**'' = ''<p>**bold <em>and italic</em> text**</p>''"
  by code_simp


lemma parseMarkdown_nested_inline:
  \<open>parseMarkdown ''`a\<newline>`<script>`\<newline>c`'' =
     ''<p><code class="inline-code">a\<newline>__INLINECODE_0__\<newline>c</code></p>''\<close>
  by code_simp

lemma parseMarkdown_partial_fence:
  \<open>parseMarkdown ''```python\<newline>print(1)\<newline>`'' =
     ''<p>``<code class="inline-code">python\<newline>print(1)\<newline></code></p>''\<close>
  by code_simp




text \<open>
  C1. An inline code span that the second inline-code pass wraps into another span is
  never restored: its sentinel is inserted with the outer span after its own turn in the
  restoring loop. The input below holds \<open><script>\<close> in such a span, and the output
  holds neither \<open><script>\<close> nor its escaped form.
\<close>

theorem nested_inline_code_dropped:
  \<open>sublist ''<script>'' ''`a\<newline>`<script>`\<newline>c`''
   \<and> parseMarkdown ''`a\<newline>`<script>`\<newline>c`'' =
       ''<p><code class="inline-code">a\<newline>__INLINECODE_0__\<newline>c</code></p>''
   \<and> \<not> sublist ''&lt;script&gt;'' (parseMarkdown ''`a\<newline>`<script>`\<newline>c`'')
   \<and> \<not> sublist ''<script>'' (parseMarkdown ''`a\<newline>`<script>`\<newline>c`'')\<close>
  unfolding parseMarkdown_nested_inline by code_simp


text \<open>
  C3. Two calls of \<open>parseMarkdown\<close> on the same text return the same string, whatever was
  rendered before. A call runs in a store that holds the three side tables and outlasts
  the call; its output does not depend on the store it finds, be it any store, the store
  that the same call left, or the store that a call on another text left: the output is
  \<open>parseMarkdown\<close> of the text alone. This rests on the declarations at the head of the
  function: the steps after them do read the tables they are given (on the table of an
  earlier call the text \<open>__INLINECODE_0__\<close> becomes an inline code element, on an empty
  table it stays as it is), and a call does leave its tables filled.
\<close>

theorem parseMarkdown_call_deterministic:
  \<open>fst (parseMarkdown_call T st1) = fst (parseMarkdown_call T st2)
   \<and> fst (parseMarkdown_call T (snd (parseMarkdown_call T st))) = fst (parseMarkdown_call T st)
   \<and> fst (parseMarkdown_call T (snd (parseMarkdown_call T' st))) = parseMarkdown T
   \<and> fst (render_steps ''__INLINECODE_0__''
             \<lparr>st_codeBlocks = [], st_inlineCodes = [''x''], st_tables = []\<rparr>)
       \<noteq> fst (render_steps ''__INLINECODE_0__''
               \<lparr>st_codeBlocks = [], st_inlineCodes = [], st_tables = []\<rparr>)
   \<and> st_inlineCodes (snd (parseMarkdown_call ''`x`''
         \<lparr>st_codeBlocks = [], st_inlineCodes = [], st_tables = []\<rparr>)) = [''x'']\<close>
  unfolding parseMarkdown_call_output render_steps_stale render_steps_empty
    parseMarkdown_call_leaves_tables
  by simp

text \<open>
  C4. A fence with a language tag that is not in the allow-list is left alone by step 1a,
  but step 1b then takes it: its newline after the opening fence is optional, so the tag
  becomes the first line of a \<open>plaintext\<close> code block. The output is a code-block
  element and holds no backtick.
\<close>

theorem unknown_language_becomes_code_block:
  \<open>parseMarkdown ''```frobnicate\<newline>x\<newline>```'' =
     ''<p>'' @ code_html \<lparr>language = ''plaintext'', code = ''frobnicate\<newline>x''\<rparr> @ ''</p>''
   \<and> CHR ''`'' \<notin> set (parseMarkdown ''```frobnicate\<newline>x\<newline>```'')\<close>
proof -
  let ?b = "\<lparr>language = ''plaintext'', code = ''frobnicate\<newline>x''\<rparr>"
  have e: "extract_regions ''```frobnicate\<newline>x\<newline>```'' = (''__CODEBLOCK_0__'', [?b], [], [])"
    by code_simp
  have f: "paragraphs (format_spans (format_blocks (escapeHtml ''__CODEBLOCK_0__''))) =
             ''<p>__CODEBLOCK_0__</p>''"
    by code_simp
  have r: "restore_blocks [?b] ''<p>__CODEBLOCK_0__</p>'' = ''<p>'' @ code_html ?b @ ''</p>''"
    by code_simp
  have n: "\<not> sublist ''<br>'' (''<p>'' @ code_html ?b @ ''</p>'')"
    by code_simp
  have t: "CHR ''`'' \<notin> set (''<p>'' @ code_html ?b @ ''</p>'')"
    by code_simp
  have c: "cleanup (''<p>'' @ code_html ?b @ ''</p>'') = ''<p>'' @ code_html ?b @ ''</p>''"
    by (rule cleanup_without_br[OF n])
  have "parseMarkdown ''```frobnicate\<newline>x\<newline>```'' = ''<p>'' @ code_html ?b @ ''</p>''"
    unfolding parseMarkdown_def e using c
    by (simp add: restore_inline_def restore_tables_def f r)
  with t show ?thesis by simp
qed

text \<open>
  C5. For the input \<open>**bold *and italic* text**\<close> the bold rule does not fire, because
  its content may not hold a \<open>*\<close>: the output has an emphasis element around
  \<open>and italic\<close> between the literal \<open>**\<close> markers, and no strong element.
\<close>

theorem nested_emphasis_output:
  "parseMarkdown ''**bold *and italic* text**'' = ''<p>**bold <em>and italic</em> text**</p>''
   \<and> sublist ''<em>and italic</em>'' (parseMarkdown ''**bold *and italic* text**'')"
  unfolding parseMarkdown_bold_italic by code_simp

theorem nested_emphasis_no_strong:
  "\<not> sublist ''<strong>'' (parseMarkdown ''**bold *and italic* text**'')"
  unfolding parseMarkdown_bold_italic by code_simp

text \<open>
  C6. An input of digit-dot list lines only: the ordered-list rule has already replaced
  the digits when the wrapping rule looks for them, and the run is wrapped in \<open>ul\<close>.
\<close>

theorem ordered_list_wrapped_in_ul:
  "parseMarkdown ''1. a\<newline>2. b'' = ''<p><ul><li>a</li><br><li>b</li></ul></p>''"
  by code_simp



text \<open>
  C8. The three-line table: two header cells \<open>A\<close> and \<open>B\<close>, both left-aligned, and
  one body row with the cells \<open>1\<close> and \<open>2\<close>.
\<close>

theorem table_round_trip:
  \<open>parseMarkdown ''| A | B |\<newline>|---|---|\<newline>| 1 | 2 |'' =
     ''<p><div class="table-wrapper"><table><thead><tr><th style="text-align: left">A</th><th style="text-align: left">B</th></tr></thead><tbody><tr><td style="text-align: left">1</td><td style="text-align: left">2</td></tr></tbody></table></div></p>''\<close>
  by code_simp

text \<open>
  C9. An opening fence whose closing fence has only begun to arrive: the second
  inline-code pass pairs the last backtick of the opening fence with the single backtick
  at the end, so the text after the fence becomes an inline code element and only two of
  the three backticks stay in the output.
\<close>

theorem partial_fence_becomes_inline_code:
  \<open>parseMarkdown ''```python\<newline>print(1)\<newline>`'' =
     ''<p>``<code class="inline-code">python\<newline>print(1)\<newline></code></p>''
   \<and> \<not> sublist ''```'' (parseMarkdown ''```python\<newline>print(1)\<newline>`'')\<close>
  unfolding parseMarkdown_partial_fence by code_simp

text \<open>
  C10. In \<open>parseInlineMarkdown\<close>, a sentinel \<open>__INLINECODE_N__\<close> whose index is not
  below the length of the inline-code table is returned as it is.
\<close>

theorem out_of_range_placeholder_unchanged:
  "length inlineCodes \<le> N \<Longrightarrow>
   parseInlineMarkdown (inlinecode_placeholder N) inlineCodes = inlinecode_placeholder N"
  unfolding inlinecode_placeholder_def
  by (rule parseInlineMarkdown_sentinel)
     (simp_all add: show_nat_digits show_nat_nonempty parseInt_show_nat)

theorem out_of_range_placeholder_unchanged_witness:
  "length [''a''] \<le> (5::nat) \<and> parseInlineMarkdown ''__INLINECODE_5__'' [''a''] = ''__INLINECODE_5__''"
proof -
  have 1: "length [''a''] \<le> (5::nat)" by simp
  have 2: "inlinecode_placeholder 5 = ''__INLINECODE_5__''" by code_simp
  from out_of_range_placeholder_unchanged[OF 1] 1 show ?thesis
    unfolding 2 by simp
qed

end
